theory Spec2Isabelle
  imports Main "HOL-Library.Word"
begin

section \<open>Callbacks\<close>

text \<open>
  A callback is a \<^verbatim>\<open>std::function<void(Args...)>\<close>. It is either empty (\<open>None\<close>) or
  holds a target, named here by a label of type \<open>'c\<close>. Calling a target with the
  argument tuple \<open>a\<close> is recorded as the pair \<open>(c, a)\<close> in the list of calls a
  \<^verbatim>\<open>trigger\<close> makes, in the order they are made. Calling an empty
  \<^verbatim>\<open>std::function\<close> throws \<^verbatim>\<open>std::bad_function_call\<close>, which ends the loop
  that made the call. Callbacks do not call back into the hub in this model, and the
  mutex is left out: every member function runs from start to end on its own.
\<close>

type_synonym 'c Callback = "'c option"

datatype error = bad_function_call

text \<open>\<^verbatim>\<open>for (cb : cbs) cb(args...);\<close> with no test for an empty callback.\<close>

fun invoke_each :: "'c Callback list \<Rightarrow> 'a \<Rightarrow> ('c \<times> 'a) list \<times> error option" where
  "invoke_each [] a = ([], None)"
| "invoke_each (None # cs) a = ([], Some bad_function_call)"
| "invoke_each (Some c # cs) a = (case invoke_each cs a of (t, r) \<Rightarrow> ((c, a) # t, r))"

text \<open>\<^verbatim>\<open>for (cb : cbs) if (cb) cb(args...);\<close>\<close>

fun invoke_nonempty :: "'c Callback list \<Rightarrow> 'a \<Rightarrow> ('c \<times> 'a) list" where
  "invoke_nonempty [] a = []"
| "invoke_nonempty (None # cs) a = invoke_nonempty cs a"
| "invoke_nonempty (Some c # cs) a = (c, a) # invoke_nonempty cs a"

section \<open>CSimpleEvent and CGlobalEvent\<close>

text \<open>Both classes have the vector \<^verbatim>\<open>callbacks_\<close> as their only member.\<close>

type_synonym 'c CSimpleEvent = "'c Callback list"
type_synonym 'c CGlobalEvent = "'c Callback list"

definition CSimpleEvent_subscribe :: "'c Callback \<Rightarrow> 'c CSimpleEvent \<Rightarrow> 'c CSimpleEvent" where
  "CSimpleEvent_subscribe cb callbacks = callbacks @ [cb]"

definition CSimpleEvent_trigger :: "'a \<Rightarrow> 'c CSimpleEvent \<Rightarrow> ('c \<times> 'a) list \<times> error option" where
  "CSimpleEvent_trigger a callbacks = invoke_each callbacks a"

definition CGlobalEvent_subscribe :: "'c Callback \<Rightarrow> 'c CGlobalEvent \<Rightarrow> 'c CGlobalEvent" where
  "CGlobalEvent_subscribe cb callbacks = callbacks @ [cb]"

definition CGlobalEvent_trigger :: "'a \<Rightarrow> 'c CGlobalEvent \<Rightarrow> ('c \<times> 'a) list" where
  "CGlobalEvent_trigger a callbacks = invoke_nonempty callbacks a"

section \<open>CEvent and CEventSafe\<close>

text \<open>
  \<^verbatim>\<open>CEvent\<close> and \<^verbatim>\<open>CEventSafe\<close> declare the same members: the flag
  \<^verbatim>\<open>needsCleanup_\<close>, the counter \<^verbatim>\<open>nextId_\<close> and the vector \<^verbatim>\<open>callbacks_\<close>
  of entries (held through \<^verbatim>\<open>shared_ptr\<close> in \<^verbatim>\<open>CEventSafe\<close>). The trailing
  underscore of the member names is dropped, and the entry's member \<^verbatim>\<open>id\<close> is
  \<open>id_entry\<close>. The C++ \<^verbatim>\<open>int\<close> is an \<open>int\<close> here; \<^verbatim>\<open>nextId_++\<close> at
  \<^verbatim>\<open>INT_MAX\<close> is a signed overflow, undefined in C++, and \<open>subscribe\<close> returns
  \<open>None\<close> there.
\<close>

record 'c CallbackEntry =
  id_entry :: int
  callback :: "'c Callback"
  active :: bool

record 'c CEvent =
  needsCleanup :: bool
  nextId :: int
  callbacks :: "'c CallbackEntry list"

type_synonym 'c CEventSafe = "'c CEvent"

definition INT_MAX :: int where
  "INT_MAX = 2147483647"

definition new_hub :: "'c CEvent" where
  "new_hub = \<lparr>needsCleanup = False, nextId = 0, callbacks = []\<rparr>"

text \<open>The entry constructor: \<^verbatim>\<open>active\<close> defaults to true.\<close>

definition new_entry :: "int \<Rightarrow> 'c Callback \<Rightarrow> 'c CallbackEntry" where
  "new_entry i cb = \<lparr>id_entry = i, callback = cb, active = True\<rparr>"

text \<open>
  \<open>subscribe\<close> returns the new hub state and the id given to the entry; the
  \<^verbatim>\<open>Subscription\<close> built from that id and the hub's address is made where the
  address is known (see \<open>step\<close> below). Neither class tests the flag
  \<^verbatim>\<open>needsCleanup_\<close> in \<^verbatim>\<open>subscribe\<close>. The hub is taken to be owned by a
  \<^verbatim>\<open>shared_ptr\<close>, which \<^verbatim>\<open>shared_from_this()\<close> needs; on a hub that is not,
  \<^verbatim>\<open>subscribe\<close> throws \<^verbatim>\<open>std::bad_weak_ptr\<close> before it stores anything.
\<close>

definition CEventSafe_subscribe :: "'c Callback \<Rightarrow> 'c CEventSafe \<Rightarrow> ('c CEventSafe \<times> int) option" where
  "CEventSafe_subscribe cb h =
     (if nextId h \<ge> INT_MAX then None
      else let i = nextId h in
        Some (h\<lparr>nextId := i + 1, callbacks := callbacks h @ [new_entry i cb]\<rparr>, i))"

definition CEvent_subscribe :: "'c Callback \<Rightarrow> 'c CEvent \<Rightarrow> ('c CEvent \<times> int) option" where
  "CEvent_subscribe cb h =
     (if nextId h \<ge> INT_MAX then None
      else let i = nextId h in
        Some (h\<lparr>nextId := i + 1, callbacks := callbacks h @ [new_entry i cb]\<rparr>, i))"

text \<open>
  The cleanup pass at the start of \<^verbatim>\<open>trigger\<close>: the erase/remove_if idiom keeps the
  entries that are active, in their order.
\<close>

definition cleanup :: "'c CEvent \<Rightarrow> 'c CEvent" where
  "cleanup h =
     (if needsCleanup h
      then h\<lparr>callbacks := filter active (callbacks h), needsCleanup := False\<rparr>
      else h)"

text \<open>The local vector \<^verbatim>\<open>activeEntries\<close> of \<^verbatim>\<open>CEventSafe::trigger\<close>.\<close>

definition activeEntries :: "'c CEventSafe \<Rightarrow> 'c CallbackEntry list" where
  "activeEntries h = filter active (callbacks (cleanup h))"

text \<open>
  \<open>trigger\<close> returns the hub after the cleanup pass, the calls made, and the
  exception that ended it, if any.
\<close>

definition CEventSafe_trigger ::
  "'a \<Rightarrow> 'c CEventSafe \<Rightarrow> 'c CEventSafe \<times> ('c \<times> 'a) list \<times> error option" where
  "CEventSafe_trigger a h = (cleanup h, invoke_each (map callback (activeEntries h)) a)"

definition CEvent_trigger ::
  "'a \<Rightarrow> 'c CEvent \<Rightarrow> 'c CEvent \<times> ('c \<times> 'a) list \<times> error option" where
  "CEvent_trigger a h = (cleanup h, invoke_each (map callback (callbacks (cleanup h))) a)"

text \<open>
  \<^verbatim>\<open>std::find_if\<close> as the position of the first element that satisfies the
  predicate; the length of the list stands for \<^verbatim>\<open>end()\<close>.
\<close>

fun find_if :: "('x \<Rightarrow> bool) \<Rightarrow> 'x list \<Rightarrow> nat" where
  "find_if P [] = 0"
| "find_if P (x # xs) = (if P x then 0 else Suc (find_if P xs))"

definition CEventSafe_unsubscribe :: "int \<Rightarrow> 'c CEventSafe \<Rightarrow> 'c CEventSafe" where
  "CEventSafe_unsubscribe i h =
     (let it = find_if (\<lambda>entry. id_entry entry = i) (callbacks h) in
      if it \<noteq> length (callbacks h)
      then h\<lparr>callbacks := (callbacks h)[it := (callbacks h ! it)\<lparr>active := False\<rparr>],
             needsCleanup := True\<rparr>
      else h)"

definition CEvent_unsubscribe :: "int \<Rightarrow> 'c CEvent \<Rightarrow> 'c CEvent" where
  "CEvent_unsubscribe i h =
     (let it = find_if (\<lambda>entry. id_entry entry = i) (callbacks h) in
      if it \<noteq> length (callbacks h)
      then h\<lparr>callbacks := (callbacks h)[it := (callbacks h ! it)\<lparr>active := False\<rparr>],
             needsCleanup := True\<rparr>
      else h)"

text \<open>
  What holds of every hub built from \<open>new_hub\<close> by the member functions: the ids
  of the stored entries are distinct and below the counter, and the flag is set
  whenever an inactive entry is stored.
\<close>

definition hub_inv :: "'c CEvent \<Rightarrow> bool" where
  "hub_inv h \<longleftrightarrow>
     distinct (map id_entry (callbacks h)) \<and>
     (\<forall>e \<in> set (callbacks h). id_entry e < nextId h) \<and>
     ((\<exists>e \<in> set (callbacks h). \<not> active e) \<longrightarrow> needsCleanup h)"

text \<open>The number of stored entries that are inactive.\<close>

definition inactive_count :: "'c CEvent \<Rightarrow> nat" where
  "inactive_count h = length (filter (\<lambda>e. \<not> active e) (callbacks h))"

section \<open>Subscription handles\<close>

text \<open>
  A \<^verbatim>\<open>Subscription\<close> holds a \<^verbatim>\<open>weak_ptr\<close> to its hub and the id of its entry
  (members \<^verbatim>\<open>event_\<close> and \<^verbatim>\<open>id_\<close>, here \<open>event\<close> and \<open>id_sub\<close>). Hubs
  live at addresses; the map \<open>hubs\<close> holds the hubs that are alive, so a
  \<^verbatim>\<open>weak_ptr\<close> is an address or empty, and \<^verbatim>\<open>lock()\<close> succeeds when the address
  is that of a live hub. An address is not used again after its hub is destroyed. The
  handle objects of the program are named by numbers, and \<open>handles\<close> lists the
  ones that are alive with their contents.
\<close>

type_synonym addr = nat
type_synonym var = nat

record Subscription =
  event :: "addr option"
  id_sub :: int

record 'c world =
  hubs :: "addr \<rightharpoonup> 'c CEventSafe"
  handles :: "(var \<times> Subscription) list"

text \<open>The destructor \<^verbatim>\<open>~Subscription\<close>, as its effect on the live hubs.\<close>

definition Subscription_destroy ::
  "Subscription \<Rightarrow> (addr \<rightharpoonup> 'c CEventSafe) \<Rightarrow> (addr \<rightharpoonup> 'c CEventSafe)" where
  "Subscription_destroy s H =
     (case event s of
        None \<Rightarrow> H
      | Some a \<Rightarrow>
          (case H a of
             None \<Rightarrow> H
           | Some h \<Rightarrow> H(a \<mapsto> CEventSafe_unsubscribe (id_sub s) h)))"

text \<open>
  What a move leaves in the source, and what it puts in the target: the moved-from
  \<^verbatim>\<open>weak_ptr\<close> is empty and the source's id is \<open>-1\<close>.
\<close>

definition moved_from :: Subscription where
  "moved_from = \<lparr>event = None, id_sub = - 1\<rparr>"

definition moved_to :: "Subscription \<Rightarrow> Subscription" where
  "moved_to other = \<lparr>event = event other, id_sub = id_sub other\<rparr>"

text \<open>
  The statements of a program that uses hubs and handles:
  \<^item> \<open>Subscribe a cb v\<close>: \<^verbatim>\<open>auto v = hub_a->subscribe(cb);\<close>
  \<^item> \<open>Trigger a x\<close>: \<^verbatim>\<open>hub_a->trigger(x);\<close>
  \<^item> \<open>Destroy v\<close>: the handle \<open>v\<close> goes out of scope;
  \<^item> \<open>MoveConstruct v u\<close>: \<^verbatim>\<open>Subscription v(std::move(u));\<close>
  \<^item> \<open>MoveAssign v u\<close>: \<^verbatim>\<open>v = std::move(u);\<close>
  \<^item> \<open>DestroyHub a\<close>: the last owner of the hub at \<open>a\<close> lets go of it.

  \<open>step\<close> is \<open>None\<close> for a statement that C++ gives no meaning: a member call on
  a hub that is gone, a handle that does not exist, a new handle under a name in use,
  the overflow of \<^verbatim>\<open>nextId_\<close>.
\<close>

datatype ('c, 'a) stmt =
    Subscribe addr "'c Callback" var
  | Trigger addr 'a
  | Destroy var
  | MoveConstruct var var
  | MoveAssign var var
  | DestroyHub addr

fun step :: "('c, 'a) stmt \<Rightarrow> 'c world \<Rightarrow> 'c world option" where
  "step (Subscribe a cb v) w =
     (case hubs w a of
        None \<Rightarrow> None
      | Some h \<Rightarrow>
          if v \<in> fst ` set (handles w) then None
          else (case CEventSafe_subscribe cb h of
                  None \<Rightarrow> None
                | Some (h', i) \<Rightarrow>
                    Some (w\<lparr>hubs := (hubs w)(a \<mapsto> h'),
                            handles := (v, \<lparr>event = Some a, id_sub = i\<rparr>) # handles w\<rparr>)))"
| "step (Trigger a x) w =
     (case hubs w a of
        None \<Rightarrow> None
      | Some h \<Rightarrow> Some (w\<lparr>hubs := (hubs w)(a \<mapsto> fst (CEventSafe_trigger x h))\<rparr>))"
| "step (Destroy v) w =
     (case map_of (handles w) v of
        None \<Rightarrow> None
      | Some s \<Rightarrow>
          Some (w\<lparr>hubs := Subscription_destroy s (hubs w),
                  handles := filter (\<lambda>p. fst p \<noteq> v) (handles w)\<rparr>))"
| "step (MoveConstruct v u) w =
     (case map_of (handles w) u of
        None \<Rightarrow> None
      | Some other \<Rightarrow>
          if v \<in> fst ` set (handles w) then None
          else Some (w\<lparr>handles :=
                 (v, moved_to other) #
                 map (\<lambda>p. if fst p = u then (u, moved_from) else p) (handles w)\<rparr>))"
| "step (MoveAssign v u) w =
     (case map_of (handles w) v of
        None \<Rightarrow> None
      | Some this \<Rightarrow>
          (case map_of (handles w) u of
             None \<Rightarrow> None
           | Some other \<Rightarrow>
               if v \<noteq> u
               then Some (w\<lparr>handles :=
                      map (\<lambda>p. if fst p = v then (v, moved_to other)
                                else if fst p = u then (u, moved_from) else p) (handles w)\<rparr>)
               else Some w))"
| "step (DestroyHub a) w =
     (case hubs w a of
        None \<Rightarrow> None
      | Some h \<Rightarrow> Some (w\<lparr>hubs := (hubs w)(a := None)\<rparr>))"

fun run :: "('c, 'a) stmt list \<Rightarrow> 'c world \<Rightarrow> 'c world option" where
  "run [] w = Some w"
| "run (p # ps) w = (case step p w of None \<Rightarrow> None | Some w' \<Rightarrow> run ps w')"

text \<open>
  The handles that are able to unsubscribe the entry \<open>i\<close> of the hub at \<open>a\<close>:
  those whose \<^verbatim>\<open>weak_ptr\<close> is the address \<open>a\<close> and whose id is \<open>i\<close>.
\<close>

definition owners :: "addr \<Rightarrow> int \<Rightarrow> 'c world \<Rightarrow> var list" where
  "owners a i w =
     map fst (filter (\<lambda>p. event (snd p) = Some a \<and> id_sub (snd p) = i) (handles w))"

definition is_move :: "('c, 'a) stmt \<Rightarrow> bool" where
  "is_move p = (case p of MoveConstruct v u \<Rightarrow> True | MoveAssign v u \<Rightarrow> True | _ \<Rightarrow> False)"

text \<open>The statements that name the handle \<open>v\<close>.\<close>

fun uses_handle :: "var \<Rightarrow> ('c, 'a) stmt \<Rightarrow> bool" where
  "uses_handle v (Subscribe a cb u) = (u = v)"
| "uses_handle v (Trigger a x) = False"
| "uses_handle v (Destroy u) = (u = v)"
| "uses_handle v (MoveConstruct u u') = (u = v \<or> u' = v)"
| "uses_handle v (MoveAssign u u') = (u = v \<or> u' = v)"
| "uses_handle v (DestroyHub a) = False"

text \<open>
  What holds of every world that a program reaches from hubs that are new and no
  handle: the handle names are distinct, every live hub satisfies \<open>hub_inv\<close>, a
  handle of a live hub holds an id below that hub's counter, and no two handles hold
  the same hub and id.
\<close>

definition world_inv :: "'c world \<Rightarrow> bool" where
  "world_inv w \<longleftrightarrow>
     distinct (map fst (handles w)) \<and>
     (\<forall>a h. hubs w a = Some h \<longrightarrow> hub_inv h) \<and>
     (\<forall>k s a h. map_of (handles w) k = Some s \<and> event s = Some a \<and> hubs w a = Some h \<longrightarrow>
        id_sub s < nextId h) \<and>
     (\<forall>k k' s s' a. map_of (handles w) k = Some s \<and> map_of (handles w) k' = Some s' \<and>
        event s = Some a \<and> event s' = Some a \<and> id_sub s = id_sub s' \<longrightarrow> k = k')"

section \<open>CTimedEvent\<close>

text \<open>
  \<^verbatim>\<open>delay\<close> returns \<open>-1\<close> at once for a negative argument. Otherwise it fills a
  \<^verbatim>\<open>timespec\<close> and calls \<^verbatim>\<open>nanosleep\<close> until the call is no longer interrupted,
  each call being handed what remains of the request, and returns \<open>0\<close>. The model
  returns the code together with the time asked of \<^verbatim>\<open>nanosleep\<close>, \<open>None\<close> when
  \<^verbatim>\<open>nanosleep\<close> is not called at all. The argument is not negative where
  \<^verbatim>\<open>/\<close> and \<^verbatim>\<open>%\<close> are applied, so they agree with \<open>div\<close> and \<open>mod\<close>.
\<close>

record timespec =
  tv_sec :: int
  tv_nsec :: int

definition delay :: "int \<Rightarrow> int \<times> timespec option" where
  "delay nMs =
     (if nMs < 0 then (- 1, None)
      else (0, Some \<lparr>tv_sec = nMs div 1000, tv_nsec = (nMs mod 1000) * 1000000\<rparr>))"

definition millis :: "timespec \<Rightarrow> int" where
  "millis t = tv_sec t * 1000 + tv_nsec t div 1000000"

text \<open>
  \<^verbatim>\<open>delay_ms\<close> is an \<^verbatim>\<open>unsigned int\<close>, 32 bits wide; it reaches the \<^verbatim>\<open>int\<close>
  parameter of \<^verbatim>\<open>delay\<close> through the conversion that keeps the bits (\<open>sint\<close>):
  the rule of C++20, and what the compilers did before it, when the result was
  theirs to define.
\<close>

record 'c TimedCallback =
  func :: "'c Callback"
  delay_ms :: "32 word"

record 'c CTimedEvent =
  immediate_callbacks :: "'c Callback list"
  delayed_callbacks :: "'c TimedCallback list"

text \<open>
  A thread started by \<^verbatim>\<open>launch_delayed\<close> is described by what its body does: the
  time it sleeps in \<^verbatim>\<open>delay\<close> (\<open>None\<close> when it does not sleep), then the calls
  \<^verbatim>\<open>bound_func()\<close> makes. The value \<^verbatim>\<open>delay\<close> returns is not used by the body.
  The thread is detached: \<^verbatim>\<open>trigger\<close> returns the threads it started next to the
  calls it made itself.
\<close>

record ('c, 'a) thread =
  slept :: "timespec option"
  then_called :: "('c \<times> 'a) list \<times> error option"

definition launch_delayed :: "'c Callback \<Rightarrow> 32 word \<Rightarrow> 'a \<Rightarrow> ('c, 'a) thread" where
  "launch_delayed cb d a =
     (case delay (sint d) of
        (ret, t) \<Rightarrow> \<lparr>slept = t, then_called = invoke_each [cb] a\<rparr>)"

definition CTimedEvent_subscribe :: "'c Callback \<Rightarrow> 'c CTimedEvent \<Rightarrow> 'c CTimedEvent" where
  "CTimedEvent_subscribe cb d = d\<lparr>immediate_callbacks := immediate_callbacks d @ [cb]\<rparr>"

definition subscribe_with_delay :: "'c Callback \<Rightarrow> 32 word \<Rightarrow> 'c CTimedEvent \<Rightarrow> 'c CTimedEvent" where
  "subscribe_with_delay cb d_ms d =
     d\<lparr>delayed_callbacks := delayed_callbacks d @ [\<lparr>func = cb, delay_ms = d_ms\<rparr>]\<rparr>"

fun launch_all :: "'c TimedCallback list \<Rightarrow> 'a \<Rightarrow> ('c, 'a) thread list" where
  "launch_all [] a = []"
| "launch_all (tcb # tcbs) a =
     (if func tcb \<noteq> None
      then launch_delayed (func tcb) (delay_ms tcb) a # launch_all tcbs a
      else launch_all tcbs a)"

definition CTimedEvent_trigger :: "'a \<Rightarrow> 'c CTimedEvent \<Rightarrow> ('c \<times> 'a) list \<times> ('c, 'a) thread list" where
  "CTimedEvent_trigger a d =
     (invoke_nonempty (immediate_callbacks d) a, launch_all (delayed_callbacks d) a)"

section \<open>Basic facts\<close>

lemma invoke_each_all_Some:
  "invoke_each (map Some cs) a = (map (\<lambda>c. (c, a)) cs, None)"
  by (induction cs) auto

lemma invoke_each_no_empty:
  "None \<notin> set cs \<Longrightarrow> invoke_each cs a = (map (\<lambda>c. (the c, a)) cs, None)"
proof (induction cs)
  case Nil
  then show ?case by simp
next
  case (Cons c cs)
  then show ?case by (cases c) auto
qed

lemma invoke_nonempty_filter:
  "invoke_nonempty cs a = map (\<lambda>c. (the c, a)) (filter (\<lambda>c. c \<noteq> None) cs)"
proof (induction cs)
  case Nil
  then show ?case by simp
next
  case (Cons c cs)
  then show ?case by (cases c) auto
qed

lemma find_if_le: "find_if P xs \<le> length xs"
  by (induction xs) auto

lemma find_if_end: "find_if P xs = length xs \<longleftrightarrow> (\<forall>x \<in> set xs. \<not> P x)"
proof (induction xs)
  case Nil
  then show ?case by simp
next
  case (Cons x xs)
  have "find_if P xs \<le> length xs" by (rule find_if_le)
  with Cons show ?case by auto
qed

lemma find_if_found: "find_if P xs \<noteq> length xs \<Longrightarrow> P (xs ! find_if P xs)"
  by (induction xs) (auto split: if_splits)

lemma find_if_lt: "find_if P xs \<noteq> length xs \<Longrightarrow> find_if P xs < length xs"
  using find_if_le [of P xs] by simp

lemma find_if_first: "j < find_if P xs \<Longrightarrow> \<not> P (xs ! j)"
proof (induction xs arbitrary: j)
  case Nil
  then show ?case by simp
next
  case (Cons x xs)
  then show ?case by (cases j) (auto split: if_splits)
qed

section \<open>The hubs\<close>

text \<open>
  \<^verbatim>\<open>CEvent\<close> has the \<^verbatim>\<open>subscribe\<close> and the \<^verbatim>\<open>unsubscribe\<close> of
  \<^verbatim>\<open>CEventSafe\<close>, without the lock.
\<close>

lemma CEvent_subscribe_eq: "CEvent_subscribe cb h = CEventSafe_subscribe cb h"
  by (simp add: CEvent_subscribe_def CEventSafe_subscribe_def)

lemma CEvent_unsubscribe_eq: "CEvent_unsubscribe i h = CEventSafe_unsubscribe i h"
  by (simp add: CEvent_unsubscribe_def CEventSafe_unsubscribe_def)

lemma find_if_map: "find_if P (map f xs) = find_if (\<lambda>x. P (f x)) xs"
  by (induction xs) auto

lemma find_if_ids:
  "map id_entry es = map id_entry es' \<Longrightarrow>
   find_if (\<lambda>e. id_entry e = i) es = find_if (\<lambda>e. id_entry e = i) es'"
  using find_if_map [of "\<lambda>j. j = i" id_entry es] find_if_map [of "\<lambda>j. j = i" id_entry es']
  by simp

lemma tombstone_ids:
  "map id_entry (es[k := (es ! k)\<lparr>active := False\<rparr>]) = map id_entry es"
proof (cases "k < length es")
  case True
  then have "(map id_entry es)[k := id_entry (es ! k)] = (map id_entry es)[k := map id_entry es ! k]"
    by simp
  then show ?thesis by (simp add: map_update)
next
  case False
  then show ?thesis by (simp add: list_update_beyond)
qed

lemma tombstone_callbacks:
  "map callback (es[k := (es ! k)\<lparr>active := False\<rparr>]) = map callback es"
proof (cases "k < length es")
  case True
  then have "(map callback es)[k := callback (es ! k)] = (map callback es)[k := map callback es ! k]"
    by simp
  then show ?thesis by (simp add: map_update)
next
  case False
  then show ?thesis by (simp add: list_update_beyond)
qed

lemma tombstone_distinct:
  "distinct (map id_entry es) \<Longrightarrow>
   (let it = find_if (\<lambda>e. id_entry e = i) es in
    if it \<noteq> length es then es[it := (es ! it)\<lparr>active := False\<rparr>] else es) =
   map (\<lambda>e. if id_entry e = i then e\<lparr>active := False\<rparr> else e) es"
proof (induction es)
  case Nil
  then show ?case by simp
next
  case (Cons x xs)
  show ?case
  proof (cases "id_entry x = i")
    case True
    from Cons.prems have "id_entry x \<notin> id_entry ` set xs" by simp
    with True have "\<forall>e \<in> set xs. id_entry e \<noteq> i" by blast
    then have "map (\<lambda>e. if id_entry e = i then e\<lparr>active := False\<rparr> else e) xs = xs"
      by (simp add: map_idI)
    with True show ?thesis by simp
  next
    case False
    with Cons show ?thesis by (auto simp: Let_def split: if_splits)
  qed
qed

lemma unsubscribe_callbacks:
  "distinct (map id_entry (callbacks h)) \<Longrightarrow>
   callbacks (CEventSafe_unsubscribe i h) =
     map (\<lambda>e. if id_entry e = i then e\<lparr>active := False\<rparr> else e) (callbacks h)"
  using tombstone_distinct [of "callbacks h" i]
  by (cases "find_if (\<lambda>e. id_entry e = i) (callbacks h) = length (callbacks h)")
     (simp_all add: CEventSafe_unsubscribe_def Let_def)

lemma unsubscribe_needsCleanup:
  "needsCleanup (CEventSafe_unsubscribe i h) \<longleftrightarrow>
     needsCleanup h \<or> i \<in> id_entry ` set (callbacks h)"
  using find_if_end [of "\<lambda>e. id_entry e = i" "callbacks h"]
  by (auto simp: CEventSafe_unsubscribe_def Let_def)

lemma unsubscribe_nextId: "nextId (CEventSafe_unsubscribe i h) = nextId h"
  by (simp add: CEventSafe_unsubscribe_def Let_def)

lemma unsubscribe_ids:
  "map id_entry (callbacks (CEventSafe_unsubscribe i h)) = map id_entry (callbacks h)"
  by (simp add: CEventSafe_unsubscribe_def Let_def tombstone_ids)

lemma unsubscribe_length:
  "length (callbacks (CEventSafe_unsubscribe i h)) = length (callbacks h)"
  by (simp add: CEventSafe_unsubscribe_def Let_def)

lemma unsubscribe_unknown:
  "i \<notin> id_entry ` set (callbacks h) \<Longrightarrow> CEventSafe_unsubscribe i h = h"
  using find_if_end [of "\<lambda>e. id_entry e = i" "callbacks h"]
  by (auto simp: CEventSafe_unsubscribe_def Let_def)

lemma unsubscribe_idem:
  "CEventSafe_unsubscribe i (CEventSafe_unsubscribe i h) = CEventSafe_unsubscribe i h"
proof (cases "find_if (\<lambda>e. id_entry e = i) (callbacks h) = length (callbacks h)")
  case True
  then show ?thesis by (simp add: CEventSafe_unsubscribe_def Let_def)
next
  case False
  define k where "k = find_if (\<lambda>e. id_entry e = i) (callbacks h)"
  define es where "es = (callbacks h)[k := (callbacks h ! k)\<lparr>active := False\<rparr>]"
  have k: "k < length (callbacks h)"
    using False find_if_lt [of "\<lambda>e. id_entry e = i" "callbacks h"] by (simp add: k_def)
  have h1: "CEventSafe_unsubscribe i h = h\<lparr>callbacks := es, needsCleanup := True\<rparr>"
    using False by (simp add: CEventSafe_unsubscribe_def Let_def k_def es_def)
  have "map id_entry es = map id_entry (callbacks h)"
    by (simp add: es_def tombstone_ids)
  then have k': "find_if (\<lambda>e. id_entry e = i) es = k"
    using find_if_ids [of es "callbacks h" i] by (simp add: k_def)
  have "es[k := (es ! k)\<lparr>active := False\<rparr>] = es"
    using k by (simp add: es_def)
  then show ?thesis
    using k k' by (simp add: h1) (simp add: CEventSafe_unsubscribe_def Let_def es_def)
qed

lemma hub_inv_new_hub: "hub_inv new_hub"
  by (simp add: hub_inv_def new_hub_def)

lemma hub_inv_subscribe:
  "hub_inv h \<Longrightarrow> CEventSafe_subscribe cb h = Some (h', i) \<Longrightarrow> hub_inv h'"
  by (fastforce simp: hub_inv_def CEventSafe_subscribe_def new_entry_def Let_def split: if_splits)

lemma hub_inv_unsubscribe: "hub_inv h \<Longrightarrow> hub_inv (CEventSafe_unsubscribe i h)"
proof -
  assume inv: "hub_inv h"
  then have d: "distinct (map id_entry (callbacks h))"
    by (simp add: hub_inv_def)
  have "distinct (map id_entry (callbacks (CEventSafe_unsubscribe i h)))"
    using d by (simp add: unsubscribe_ids)
  moreover have "\<forall>e \<in> set (callbacks (CEventSafe_unsubscribe i h)).
      id_entry e < nextId (CEventSafe_unsubscribe i h)"
    using inv by (auto simp: unsubscribe_callbacks [OF d] unsubscribe_nextId hub_inv_def)
  moreover have "(\<exists>e \<in> set (callbacks (CEventSafe_unsubscribe i h)). \<not> active e) \<longrightarrow>
      needsCleanup (CEventSafe_unsubscribe i h)"
    using inv by (auto simp: unsubscribe_callbacks [OF d] unsubscribe_needsCleanup hub_inv_def)
  ultimately show ?thesis by (simp add: hub_inv_def)
qed

lemma hub_inv_cleanup: "hub_inv h \<Longrightarrow> hub_inv (cleanup h)"
  by (auto simp: hub_inv_def cleanup_def distinct_map_filter)

lemma hub_inv_trigger: "hub_inv h \<Longrightarrow> hub_inv (fst (CEventSafe_trigger x h))"
  by (simp add: CEventSafe_trigger_def hub_inv_cleanup)

lemma activeEntries_eq: "activeEntries h = filter active (callbacks h)"
  by (simp add: activeEntries_def cleanup_def)

lemma cleanup_no_inactive:
  "hub_inv h \<Longrightarrow> filter (\<lambda>e. \<not> active e) (callbacks (cleanup h)) = []"
  by (auto simp: hub_inv_def cleanup_def filter_empty_conv)

lemma cleanup_callbacks_inv:
  "hub_inv h \<Longrightarrow> callbacks (cleanup h) = filter active (callbacks h)"
  by (auto simp: hub_inv_def cleanup_def filter_id_conv)

lemma invoke_each_entries:
  "\<forall>e \<in> set es. callback e \<noteq> None \<Longrightarrow>
   invoke_each (map callback es) x = (map (\<lambda>e. (the (callback e), x)) es, None)"
  by (induction es) auto

lemma activeEntries_unsubscribe:
  assumes "distinct (map id_entry (callbacks h))"
  shows "activeEntries (CEventSafe_unsubscribe i h) =
         filter (\<lambda>e. id_entry e \<noteq> i) (activeEntries h)"
proof -
  have "filter active (map (\<lambda>e. if id_entry e = i then e\<lparr>active := False\<rparr> else e) es) =
        filter (\<lambda>e. id_entry e \<noteq> i) (filter active es)" for es :: "'a CallbackEntry list"
    by (induction es) auto
  then show ?thesis
    by (simp add: activeEntries_eq unsubscribe_callbacks [OF assms])
qed

lemma activeEntries_trigger:
  "activeEntries (fst (CEventSafe_trigger x h)) = activeEntries h"
  by (simp add: CEventSafe_trigger_def activeEntries_eq cleanup_def)

text \<open>
  Claim C7. On a hub that satisfies \<open>hub_inv\<close>, \<^verbatim>\<open>unsubscribe(id)\<close> of a stored id
  marks its entry inactive and sets the cleanup flag, and the list keeps its length;
  \<^verbatim>\<open>unsubscribe\<close> of an id that is not stored, or of an id whose entry is already
  inactive, leaves the hub as it is; a second \<^verbatim>\<open>unsubscribe\<close> of the same id changes
  nothing; and after the two calls every entry with another id is stored unchanged,
  the active ones are what the next \<^verbatim>\<open>trigger\<close> takes into its snapshot, in their
  order, and (no active callback being empty) what it calls.
\<close>

theorem unsubscribe_tombstones_and_is_idempotent:
  assumes "hub_inv h"
  shows
    "(i \<in> id_entry ` set (callbacks h) \<longrightarrow>
        callbacks (CEventSafe_unsubscribe i h) =
          map (\<lambda>e. if id_entry e = i then e\<lparr>active := False\<rparr> else e) (callbacks h) \<and>
        length (callbacks (CEventSafe_unsubscribe i h)) = length (callbacks h) \<and>
        needsCleanup (CEventSafe_unsubscribe i h)) \<and>
     (i \<notin> id_entry ` set (callbacks h) \<longrightarrow> CEventSafe_unsubscribe i h = h) \<and>
     ((\<exists>e \<in> set (callbacks h). id_entry e = i \<and> \<not> active e) \<longrightarrow>
        CEventSafe_unsubscribe i h = h) \<and>
     CEventSafe_unsubscribe i (CEventSafe_unsubscribe i h) = CEventSafe_unsubscribe i h \<and>
     (\<forall>e \<in> set (callbacks h). id_entry e \<noteq> i \<longrightarrow>
        e \<in> set (callbacks (CEventSafe_unsubscribe i (CEventSafe_unsubscribe i h)))) \<and>
     activeEntries (CEventSafe_unsubscribe i (CEventSafe_unsubscribe i h)) =
       filter (\<lambda>e. id_entry e \<noteq> i) (activeEntries h) \<and>
     ((\<forall>e \<in> set (callbacks h). active e \<longrightarrow> callback e \<noteq> None) \<longrightarrow>
        snd (CEventSafe_trigger x (CEventSafe_unsubscribe i (CEventSafe_unsubscribe i h))) =
          (map (\<lambda>e. (the (callback e), x)) (filter (\<lambda>e. id_entry e \<noteq> i) (activeEntries h)),
           None))"
proof -
  from assms have d: "distinct (map id_entry (callbacks h))"
    by (simp add: hub_inv_def)
  note cb = unsubscribe_callbacks [OF d, of i]
  have found: "i \<in> id_entry ` set (callbacks h) \<longrightarrow>
        callbacks (CEventSafe_unsubscribe i h) =
          map (\<lambda>e. if id_entry e = i then e\<lparr>active := False\<rparr> else e) (callbacks h) \<and>
        length (callbacks (CEventSafe_unsubscribe i h)) = length (callbacks h) \<and>
        needsCleanup (CEventSafe_unsubscribe i h)"
    by (simp add: cb unsubscribe_needsCleanup)
  have unknown: "i \<notin> id_entry ` set (callbacks h) \<longrightarrow> CEventSafe_unsubscribe i h = h"
    by (simp add: unsubscribe_unknown)
  have tomb: "(\<exists>e \<in> set (callbacks h). id_entry e = i \<and> \<not> active e) \<longrightarrow>
        CEventSafe_unsubscribe i h = h"
  proof
    assume ex: "\<exists>e \<in> set (callbacks h). id_entry e = i \<and> \<not> active e"
    then obtain e0 where e0: "e0 \<in> set (callbacks h)" "id_entry e0 = i" "\<not> active e0"
      by blast
    have flag: "needsCleanup h"
      using assms e0 by (auto simp: hub_inv_def)
    have inj: "inj_on id_entry (set (callbacks h))"
      using d by (simp add: distinct_map)
    have same: "\<forall>e \<in> set (callbacks h). id_entry e = i \<longrightarrow> e = e0"
    proof (intro ballI impI)
      fix e
      assume e: "e \<in> set (callbacks h)" and "id_entry e = i"
      with e0 have "id_entry e = id_entry e0" by simp
      from inj this e e0(1) show "e = e0" by (rule inj_onD)
    qed
    have "map (\<lambda>e. if id_entry e = i then e\<lparr>active := False\<rparr> else e) (callbacks h) = callbacks h"
    proof (rule map_idI)
      fix e
      assume e: "e \<in> set (callbacks h)"
      show "(if id_entry e = i then e\<lparr>active := False\<rparr> else e) = e"
      proof (cases "id_entry e = i")
        case True
        with same e have "e = e0" by blast
        with e0(3) have "\<not> active e" by simp
        then have "e\<lparr>active := False\<rparr> = e" by simp
        with True show ?thesis by simp
      next
        case False
        then show ?thesis by simp
      qed
    qed
    then have "callbacks (CEventSafe_unsubscribe i h) = callbacks h"
      by (simp add: cb)
    moreover have "needsCleanup (CEventSafe_unsubscribe i h) = needsCleanup h"
      using flag by (simp add: unsubscribe_needsCleanup)
    moreover have "nextId (CEventSafe_unsubscribe i h) = nextId h"
      by (rule unsubscribe_nextId)
    moreover have "CEvent.more (CEventSafe_unsubscribe i h) = CEvent.more h"
      by (simp add: CEventSafe_unsubscribe_def Let_def)
    ultimately show "CEventSafe_unsubscribe i h = h"
      by (simp add: CEvent.equality)
  qed
  have idem: "CEventSafe_unsubscribe i (CEventSafe_unsubscribe i h) = CEventSafe_unsubscribe i h"
    by (rule unsubscribe_idem)
  have others: "\<forall>e \<in> set (callbacks h). id_entry e \<noteq> i \<longrightarrow>
        e \<in> set (callbacks (CEventSafe_unsubscribe i (CEventSafe_unsubscribe i h)))"
    by (auto simp: idem cb)
  have act: "activeEntries (CEventSafe_unsubscribe i (CEventSafe_unsubscribe i h)) =
       filter (\<lambda>e. id_entry e \<noteq> i) (activeEntries h)"
    by (simp add: idem activeEntries_unsubscribe [OF d])
  have calls: "(\<forall>e \<in> set (callbacks h). active e \<longrightarrow> callback e \<noteq> None) \<longrightarrow>
        snd (CEventSafe_trigger x (CEventSafe_unsubscribe i (CEventSafe_unsubscribe i h))) =
          (map (\<lambda>e. (the (callback e), x)) (filter (\<lambda>e. id_entry e \<noteq> i) (activeEntries h)),
           None)"
  proof
    assume "\<forall>e \<in> set (callbacks h). active e \<longrightarrow> callback e \<noteq> None"
    then have "\<forall>e \<in> set (filter (\<lambda>e. id_entry e \<noteq> i) (activeEntries h)). callback e \<noteq> None"
      by (simp add: activeEntries_eq)
    then show "snd (CEventSafe_trigger x (CEventSafe_unsubscribe i (CEventSafe_unsubscribe i h))) =
          (map (\<lambda>e. (the (callback e), x)) (filter (\<lambda>e. id_entry e \<noteq> i) (activeEntries h)),
           None)"
      by (simp add: CEventSafe_trigger_def act invoke_each_entries)
  qed
  show ?thesis
    by (rule conjI [OF found conjI [OF unknown conjI [OF tomb
          conjI [OF idem conjI [OF others conjI [OF act calls]]]]]])
qed

theorem unsubscribe_tombstones_witness:
  "hub_inv \<lparr>needsCleanup = False, nextId = 2,
      callbacks = [\<lparr>id_entry = 0, callback = Some (10 :: nat), active = True\<rparr>,
                   \<lparr>id_entry = 1, callback = Some 11, active = True\<rparr>]\<rparr> \<and>
   CEventSafe_unsubscribe 0 \<lparr>needsCleanup = False, nextId = 2,
      callbacks = [\<lparr>id_entry = 0, callback = Some (10 :: nat), active = True\<rparr>,
                   \<lparr>id_entry = 1, callback = Some 11, active = True\<rparr>]\<rparr> =
     \<lparr>needsCleanup = True, nextId = 2,
      callbacks = [\<lparr>id_entry = 0, callback = Some 10, active = False\<rparr>,
                   \<lparr>id_entry = 1, callback = Some 11, active = True\<rparr>]\<rparr> \<and>
   CEventSafe_unsubscribe 7 \<lparr>needsCleanup = False, nextId = 2,
      callbacks = [\<lparr>id_entry = 0, callback = Some (10 :: nat), active = True\<rparr>,
                   \<lparr>id_entry = 1, callback = Some 11, active = True\<rparr>]\<rparr> =
     \<lparr>needsCleanup = False, nextId = 2,
      callbacks = [\<lparr>id_entry = 0, callback = Some 10, active = True\<rparr>,
                   \<lparr>id_entry = 1, callback = Some 11, active = True\<rparr>]\<rparr> \<and>
   CEventSafe_unsubscribe 0 \<lparr>needsCleanup = True, nextId = 2,
      callbacks = [\<lparr>id_entry = 0, callback = Some (10 :: nat), active = False\<rparr>,
                   \<lparr>id_entry = 1, callback = Some 11, active = True\<rparr>]\<rparr> =
     \<lparr>needsCleanup = True, nextId = 2,
      callbacks = [\<lparr>id_entry = 0, callback = Some 10, active = False\<rparr>,
                   \<lparr>id_entry = 1, callback = Some 11, active = True\<rparr>]\<rparr> \<and>
   snd (CEventSafe_trigger (5 :: int)
     (CEventSafe_unsubscribe 0 (CEventSafe_unsubscribe 0 \<lparr>needsCleanup = False, nextId = 2,
      callbacks = [\<lparr>id_entry = 0, callback = Some (10 :: nat), active = True\<rparr>,
                   \<lparr>id_entry = 1, callback = Some 11, active = True\<rparr>]\<rparr>))) =
     ([(11, 5)], None)"
proof -
  define H :: "nat CEvent" where "H = \<lparr>needsCleanup = False, nextId = 2,
      callbacks = [\<lparr>id_entry = 0, callback = Some (10 :: nat), active = True\<rparr>,
                   \<lparr>id_entry = 1, callback = Some 11, active = True\<rparr>]\<rparr>"
  define H1 :: "nat CEvent" where "H1 = \<lparr>needsCleanup = True, nextId = 2,
      callbacks = [\<lparr>id_entry = 0, callback = Some (10 :: nat), active = False\<rparr>,
                   \<lparr>id_entry = 1, callback = Some 11, active = True\<rparr>]\<rparr>"
  have inv: "hub_inv H"
    by (simp add: hub_inv_def H_def)
  have inv1: "hub_inv H1"
    by (simp add: hub_inv_def H1_def)
  have known: "0 \<in> id_entry ` set (callbacks H)"
    by (simp add: H_def)
  have unknown: "7 \<notin> id_entry ` set (callbacks H)"
    by (simp add: H_def)
  have tomb: "\<exists>e \<in> set (callbacks H1). id_entry e = 0 \<and> \<not> active e"
    by (simp add: H1_def)
  have nonempty: "\<forall>e \<in> set (callbacks H). active e \<longrightarrow> callback e \<noteq> None"
    by (simp add: H_def)
  note at_known = unsubscribe_tombstones_and_is_idempotent [OF inv, of 0 "5 :: int"]
  note at_unknown = unsubscribe_tombstones_and_is_idempotent [OF inv, of 7 "5 :: int"]
  note at_tomb = unsubscribe_tombstones_and_is_idempotent [OF inv1, of 0 "5 :: int"]
  have a: "CEventSafe_unsubscribe 0 H = H1"
    using at_known known by (simp add: H_def H1_def CEventSafe_unsubscribe_def)
  have b: "CEventSafe_unsubscribe 7 H = H"
    using at_unknown unknown by blast
  have c: "CEventSafe_unsubscribe 0 H1 = H1"
    using at_tomb tomb by blast
  have d: "snd (CEventSafe_trigger (5 :: int) (CEventSafe_unsubscribe 0 (CEventSafe_unsubscribe 0 H))) =
      ([(11, 5)], None)"
  proof -
    from at_known nonempty
    have "snd (CEventSafe_trigger (5 :: int) (CEventSafe_unsubscribe 0 (CEventSafe_unsubscribe 0 H))) =
      (map (\<lambda>e. (the (callback e), 5)) (filter (\<lambda>e. id_entry e \<noteq> 0) (activeEntries H)), None)"
      by blast
    then show ?thesis
      by (simp add: H_def activeEntries_def cleanup_def)
  qed
  from inv a b c d show ?thesis
    unfolding H_def H1_def by (intro conjI)
qed

lemma invoke_each_append:
  "None \<notin> set cs \<Longrightarrow>
   invoke_each (cs @ ds) x =
     (map (\<lambda>c. (the c, x)) cs @ fst (invoke_each ds x), snd (invoke_each ds x))"
proof (induction cs)
  case Nil
  then show ?case by simp
next
  case (Cons c cs)
  then show ?case by (cases c) (auto split: prod.splits)
qed

lemma invoke_nonempty_append:
  "invoke_nonempty (cs @ ds) x = invoke_nonempty cs x @ invoke_nonempty ds x"
  by (simp add: invoke_nonempty_filter)

lemma subscribe_Some:
  "CEventSafe_subscribe cb h = Some (h', i) \<Longrightarrow>
   i = nextId h \<and> nextId h < INT_MAX \<and>
   h' = h\<lparr>nextId := nextId h + 1, callbacks := callbacks h @ [new_entry (nextId h) cb]\<rparr>"
  by (auto simp: CEventSafe_subscribe_def Let_def split: if_splits)

lemma CEvent_subscribe_Some:
  "CEvent_subscribe cb h = Some (h', i) \<Longrightarrow>
   i = nextId h \<and> nextId h < INT_MAX \<and>
   h' = h\<lparr>nextId := nextId h + 1, callbacks := callbacks h @ [new_entry (nextId h) cb]\<rparr>"
  by (auto simp: CEvent_subscribe_def Let_def split: if_splits)

lemma activeEntries_subscribe:
  "CEventSafe_subscribe cb h = Some (h', i) \<Longrightarrow>
   activeEntries h' = activeEntries h @ [new_entry i cb]"
  by (drule subscribe_Some) (simp add: activeEntries_eq new_entry_def)

lemma cleanup_subscribe:
  "CEvent_subscribe cb h = Some (h', i) \<Longrightarrow>
   callbacks (cleanup h') = callbacks (cleanup h) @ [new_entry i cb]"
  by (drule CEvent_subscribe_Some) (simp add: cleanup_def new_entry_def)

lemma subscribe_thrice:
  assumes "nextId h + 2 < INT_MAX"
  shows "\<exists>h1 h2 h3.
           CEventSafe_subscribe (Some A) h = Some (h1, nextId h) \<and>
           CEventSafe_subscribe (Some B) h1 = Some (h2, nextId h + 1) \<and>
           CEventSafe_subscribe (Some C) h2 = Some (h3, nextId h + 2)"
  using assms by (simp add: CEventSafe_subscribe_def Let_def)

text \<open>
  Claim C6. Immediate dispatch calls the callbacks in subscription order with the
  arguments of \<^verbatim>\<open>trigger\<close>. On \<^verbatim>\<open>CEventSafe\<close> and \<^verbatim>\<open>CEvent\<close>, while the
  counter leaves room for three more ids, subscribing \<open>A\<close>, \<open>B\<close>, \<open>C\<close> in that
  order (the handles being kept) registers them under the next three ids, and
  \<^verbatim>\<open>trigger(x)\<close> then makes the calls of the listeners that were there before, in
  their order, followed by \<open>A(x)\<close>, \<open>B(x)\<close>, \<open>C(x)\<close>, no earlier callback that is
  called being empty. The same holds of \<^verbatim>\<open>CSimpleEvent\<close>, of \<^verbatim>\<open>CGlobalEvent\<close>
  and of the immediate list of \<^verbatim>\<open>CTimedEvent\<close>, whose \<^verbatim>\<open>subscribe\<close> cannot
  fail. On a new hub the calls are \<open>A(5)\<close>, \<open>B(5)\<close>, \<open>C(5)\<close> for
  \<^verbatim>\<open>trigger(5)\<close>.
\<close>

theorem immediate_dispatch_in_subscription_order:
  "((\<forall>e \<in> set (callbacks h). active e \<longrightarrow> callback e \<noteq> None) \<longrightarrow>
    nextId h + 2 < INT_MAX \<longrightarrow>
      (\<exists>h1 h2 h3.
         CEventSafe_subscribe (Some A) h = Some (h1, nextId h) \<and>
         CEventSafe_subscribe (Some B) h1 = Some (h2, nextId h + 1) \<and>
         CEventSafe_subscribe (Some C) h2 = Some (h3, nextId h + 2) \<and>
         snd (CEventSafe_trigger x h3) =
           (map (\<lambda>e. (the (callback e), x)) (activeEntries h) @ [(A, x), (B, x), (C, x)],
            None))) \<and>
   ((\<forall>e \<in> set (callbacks (cleanup g)). callback e \<noteq> None) \<longrightarrow>
    nextId g + 2 < INT_MAX \<longrightarrow>
      (\<exists>g1 g2 g3.
         CEvent_subscribe (Some A) g = Some (g1, nextId g) \<and>
         CEvent_subscribe (Some B) g1 = Some (g2, nextId g + 1) \<and>
         CEvent_subscribe (Some C) g2 = Some (g3, nextId g + 2) \<and>
         snd (CEvent_trigger x g3) =
           (map (\<lambda>e. (the (callback e), x)) (callbacks (cleanup g)) @
              [(A, x), (B, x), (C, x)], None))) \<and>
   (None \<notin> set s \<longrightarrow>
      CSimpleEvent_trigger x
        (CSimpleEvent_subscribe (Some C) (CSimpleEvent_subscribe (Some B)
          (CSimpleEvent_subscribe (Some A) s))) =
        (map (\<lambda>c. (the c, x)) s @ [(A, x), (B, x), (C, x)], None)) \<and>
   CGlobalEvent_trigger x
     (CGlobalEvent_subscribe (Some C) (CGlobalEvent_subscribe (Some B)
       (CGlobalEvent_subscribe (Some A) s'))) =
     CGlobalEvent_trigger x s' @ [(A, x), (B, x), (C, x)] \<and>
   fst (CTimedEvent_trigger x
     (CTimedEvent_subscribe (Some C) (CTimedEvent_subscribe (Some B)
       (CTimedEvent_subscribe (Some A) d)))) =
     fst (CTimedEvent_trigger x d) @ [(A, x), (B, x), (C, x)]"
proof -
  have safe: "(\<forall>e \<in> set (callbacks h). active e \<longrightarrow> callback e \<noteq> None) \<longrightarrow>
    nextId h + 2 < INT_MAX \<longrightarrow>
      (\<exists>h1 h2 h3.
         CEventSafe_subscribe (Some A) h = Some (h1, nextId h) \<and>
         CEventSafe_subscribe (Some B) h1 = Some (h2, nextId h + 1) \<and>
         CEventSafe_subscribe (Some C) h2 = Some (h3, nextId h + 2) \<and>
         snd (CEventSafe_trigger x h3) =
           (map (\<lambda>e. (the (callback e), x)) (activeEntries h) @ [(A, x), (B, x), (C, x)],
            None))"
  proof (intro impI)
    assume ne: "\<forall>e \<in> set (callbacks h). active e \<longrightarrow> callback e \<noteq> None"
      and room: "nextId h + 2 < INT_MAX"
    from subscribe_thrice [OF room, of A B C] obtain h1 h2 h3 where
      a: "CEventSafe_subscribe (Some A) h = Some (h1, nextId h)" and
      b: "CEventSafe_subscribe (Some B) h1 = Some (h2, nextId h + 1)" and
      c: "CEventSafe_subscribe (Some C) h2 = Some (h3, nextId h + 2)"
      by blast
    have act: "activeEntries h3 =
        activeEntries h @ [new_entry (nextId h) (Some A), new_entry (nextId h + 1) (Some B),
          new_entry (nextId h + 2) (Some C)]"
      by (simp add: activeEntries_subscribe [OF a] activeEntries_subscribe [OF b]
          activeEntries_subscribe [OF c])
    from ne have "None \<notin> set (map callback (activeEntries h))"
      by (auto simp: activeEntries_eq)
    then have "snd (CEventSafe_trigger x h3) =
        (map (\<lambda>e. (the (callback e), x)) (activeEntries h) @ [(A, x), (B, x), (C, x)], None)"
      by (simp add: CEventSafe_trigger_def act invoke_each_append new_entry_def comp_def)
    with a b c show "\<exists>h1 h2 h3.
         CEventSafe_subscribe (Some A) h = Some (h1, nextId h) \<and>
         CEventSafe_subscribe (Some B) h1 = Some (h2, nextId h + 1) \<and>
         CEventSafe_subscribe (Some C) h2 = Some (h3, nextId h + 2) \<and>
         snd (CEventSafe_trigger x h3) =
           (map (\<lambda>e. (the (callback e), x)) (activeEntries h) @ [(A, x), (B, x), (C, x)],
            None)"
      by blast
  qed
  have plain: "(\<forall>e \<in> set (callbacks (cleanup g)). callback e \<noteq> None) \<longrightarrow>
    nextId g + 2 < INT_MAX \<longrightarrow>
      (\<exists>g1 g2 g3.
         CEvent_subscribe (Some A) g = Some (g1, nextId g) \<and>
         CEvent_subscribe (Some B) g1 = Some (g2, nextId g + 1) \<and>
         CEvent_subscribe (Some C) g2 = Some (g3, nextId g + 2) \<and>
         snd (CEvent_trigger x g3) =
           (map (\<lambda>e. (the (callback e), x)) (callbacks (cleanup g)) @
              [(A, x), (B, x), (C, x)], None))"
  proof (intro impI)
    assume ne: "\<forall>e \<in> set (callbacks (cleanup g)). callback e \<noteq> None"
      and room: "nextId g + 2 < INT_MAX"
    from subscribe_thrice [OF room, of A B C] obtain g1 g2 g3 where
      a: "CEvent_subscribe (Some A) g = Some (g1, nextId g)" and
      b: "CEvent_subscribe (Some B) g1 = Some (g2, nextId g + 1)" and
      c: "CEvent_subscribe (Some C) g2 = Some (g3, nextId g + 2)"
      unfolding CEvent_subscribe_eq by blast
    have act: "callbacks (cleanup g3) =
        callbacks (cleanup g) @ [new_entry (nextId g) (Some A), new_entry (nextId g + 1) (Some B),
          new_entry (nextId g + 2) (Some C)]"
      by (simp add: cleanup_subscribe [OF a] cleanup_subscribe [OF b] cleanup_subscribe [OF c])
    from ne have "None \<notin> set (map callback (callbacks (cleanup g)))"
      by auto
    then have "snd (CEvent_trigger x g3) =
        (map (\<lambda>e. (the (callback e), x)) (callbacks (cleanup g)) @ [(A, x), (B, x), (C, x)], None)"
      by (simp add: CEvent_trigger_def act invoke_each_append new_entry_def comp_def)
    with a b c show "\<exists>g1 g2 g3.
         CEvent_subscribe (Some A) g = Some (g1, nextId g) \<and>
         CEvent_subscribe (Some B) g1 = Some (g2, nextId g + 1) \<and>
         CEvent_subscribe (Some C) g2 = Some (g3, nextId g + 2) \<and>
         snd (CEvent_trigger x g3) =
           (map (\<lambda>e. (the (callback e), x)) (callbacks (cleanup g)) @
              [(A, x), (B, x), (C, x)], None)"
      by blast
  qed
  have simple: "None \<notin> set s \<longrightarrow>
      CSimpleEvent_trigger x
        (CSimpleEvent_subscribe (Some C) (CSimpleEvent_subscribe (Some B)
          (CSimpleEvent_subscribe (Some A) s))) =
        (map (\<lambda>c. (the c, x)) s @ [(A, x), (B, x), (C, x)], None)"
    by (simp add: CSimpleEvent_trigger_def CSimpleEvent_subscribe_def invoke_each_append)
  have global: "CGlobalEvent_trigger x
     (CGlobalEvent_subscribe (Some C) (CGlobalEvent_subscribe (Some B)
       (CGlobalEvent_subscribe (Some A) s'))) =
     CGlobalEvent_trigger x s' @ [(A, x), (B, x), (C, x)]"
    by (simp add: CGlobalEvent_trigger_def CGlobalEvent_subscribe_def invoke_nonempty_append)
  have timed: "fst (CTimedEvent_trigger x
     (CTimedEvent_subscribe (Some C) (CTimedEvent_subscribe (Some B)
       (CTimedEvent_subscribe (Some A) d)))) =
     fst (CTimedEvent_trigger x d) @ [(A, x), (B, x), (C, x)]"
    by (simp add: CTimedEvent_trigger_def CTimedEvent_subscribe_def invoke_nonempty_append)
  show ?thesis
    by (rule conjI [OF safe conjI [OF plain conjI [OF simple conjI [OF global timed]]]])
qed

theorem immediate_dispatch_witness:
  "CEventSafe_subscribe (Some (1 :: nat)) new_hub =
     Some (\<lparr>needsCleanup = False, nextId = 1,
            callbacks = [\<lparr>id_entry = 0, callback = Some 1, active = True\<rparr>]\<rparr>, 0) \<and>
   CEventSafe_subscribe (Some (2 :: nat))
       \<lparr>needsCleanup = False, nextId = 1,
        callbacks = [\<lparr>id_entry = 0, callback = Some 1, active = True\<rparr>]\<rparr> =
     Some (\<lparr>needsCleanup = False, nextId = 2,
            callbacks = [\<lparr>id_entry = 0, callback = Some 1, active = True\<rparr>,
                         \<lparr>id_entry = 1, callback = Some 2, active = True\<rparr>]\<rparr>, 1) \<and>
   CEventSafe_subscribe (Some (3 :: nat))
       \<lparr>needsCleanup = False, nextId = 2,
        callbacks = [\<lparr>id_entry = 0, callback = Some 1, active = True\<rparr>,
                     \<lparr>id_entry = 1, callback = Some 2, active = True\<rparr>]\<rparr> =
     Some (\<lparr>needsCleanup = False, nextId = 3,
            callbacks = [\<lparr>id_entry = 0, callback = Some 1, active = True\<rparr>,
                         \<lparr>id_entry = 1, callback = Some 2, active = True\<rparr>,
                         \<lparr>id_entry = 2, callback = Some 3, active = True\<rparr>]\<rparr>, 2) \<and>
   snd (CEventSafe_trigger (5 :: int)
     \<lparr>needsCleanup = False, nextId = 3,
      callbacks = [\<lparr>id_entry = 0, callback = Some (1 :: nat), active = True\<rparr>,
                   \<lparr>id_entry = 1, callback = Some 2, active = True\<rparr>,
                   \<lparr>id_entry = 2, callback = Some 3, active = True\<rparr>]\<rparr>) =
     ([(1, 5), (2, 5), (3, 5)], None) \<and>
   CEvent_subscribe (Some (1 :: nat)) new_hub =
     Some (\<lparr>needsCleanup = False, nextId = 1,
            callbacks = [\<lparr>id_entry = 0, callback = Some 1, active = True\<rparr>]\<rparr>, 0) \<and>
   CEvent_subscribe (Some (2 :: nat))
       \<lparr>needsCleanup = False, nextId = 1,
        callbacks = [\<lparr>id_entry = 0, callback = Some 1, active = True\<rparr>]\<rparr> =
     Some (\<lparr>needsCleanup = False, nextId = 2,
            callbacks = [\<lparr>id_entry = 0, callback = Some 1, active = True\<rparr>,
                         \<lparr>id_entry = 1, callback = Some 2, active = True\<rparr>]\<rparr>, 1) \<and>
   CEvent_subscribe (Some (3 :: nat))
       \<lparr>needsCleanup = False, nextId = 2,
        callbacks = [\<lparr>id_entry = 0, callback = Some 1, active = True\<rparr>,
                     \<lparr>id_entry = 1, callback = Some 2, active = True\<rparr>]\<rparr> =
     Some (\<lparr>needsCleanup = False, nextId = 3,
            callbacks = [\<lparr>id_entry = 0, callback = Some 1, active = True\<rparr>,
                         \<lparr>id_entry = 1, callback = Some 2, active = True\<rparr>,
                         \<lparr>id_entry = 2, callback = Some 3, active = True\<rparr>]\<rparr>, 2) \<and>
   snd (CEvent_trigger (5 :: int)
     \<lparr>needsCleanup = False, nextId = 3,
      callbacks = [\<lparr>id_entry = 0, callback = Some (1 :: nat), active = True\<rparr>,
                   \<lparr>id_entry = 1, callback = Some 2, active = True\<rparr>,
                   \<lparr>id_entry = 2, callback = Some 3, active = True\<rparr>]\<rparr>) =
     ([(1, 5), (2, 5), (3, 5)], None) \<and>
   CSimpleEvent_trigger (5 :: int)
     (CSimpleEvent_subscribe (Some 3) (CSimpleEvent_subscribe (Some 2)
       (CSimpleEvent_subscribe (Some (1 :: nat)) []))) =
     ([(1, 5), (2, 5), (3, 5)], None) \<and>
   CGlobalEvent_trigger (5 :: int)
     (CGlobalEvent_subscribe (Some 3) (CGlobalEvent_subscribe (Some 2)
       (CGlobalEvent_subscribe (Some (1 :: nat)) []))) =
     [(1, 5), (2, 5), (3, 5)] \<and>
   fst (CTimedEvent_trigger (5 :: int)
     (CTimedEvent_subscribe (Some 3) (CTimedEvent_subscribe (Some 2)
       (CTimedEvent_subscribe (Some (1 :: nat))
         \<lparr>immediate_callbacks = [], delayed_callbacks = []\<rparr>)))) =
     [(1, 5), (2, 5), (3, 5)]"
proof -
  define H1 :: "nat CEvent" where "H1 = \<lparr>needsCleanup = False, nextId = 1,
      callbacks = [\<lparr>id_entry = 0, callback = Some (1 :: nat), active = True\<rparr>]\<rparr>"
  define H2 :: "nat CEvent" where "H2 = \<lparr>needsCleanup = False, nextId = 2,
      callbacks = [\<lparr>id_entry = 0, callback = Some (1 :: nat), active = True\<rparr>,
                   \<lparr>id_entry = 1, callback = Some 2, active = True\<rparr>]\<rparr>"
  define H3 :: "nat CEvent" where "H3 = \<lparr>needsCleanup = False, nextId = 3,
      callbacks = [\<lparr>id_entry = 0, callback = Some (1 :: nat), active = True\<rparr>,
                   \<lparr>id_entry = 1, callback = Some 2, active = True\<rparr>,
                   \<lparr>id_entry = 2, callback = Some 3, active = True\<rparr>]\<rparr>"
  have ne: "\<forall>e \<in> set (callbacks (new_hub :: nat CEvent)). active e \<longrightarrow> callback e \<noteq> None"
    by (simp add: new_hub_def)
  have ne': "\<forall>e \<in> set (callbacks (cleanup (new_hub :: nat CEvent))). callback e \<noteq> None"
    by (simp add: new_hub_def cleanup_def)
  have room: "nextId (new_hub :: nat CEvent) + 2 < INT_MAX"
    by (simp add: new_hub_def INT_MAX_def)
  have s: "None \<notin> set ([] :: nat Callback list)"
    by simp
  note at = immediate_dispatch_in_subscription_order
    [of "new_hub :: nat CEvent" 1 2 3 "5 :: int" new_hub
        "[]" "[]" "\<lparr>immediate_callbacks = [], delayed_callbacks = []\<rparr>"]
  from at ne room obtain h1 h2 h3 where
    a: "CEventSafe_subscribe (Some 1) (new_hub :: nat CEvent) = Some (h1, nextId (new_hub :: nat CEvent))" and
    b: "CEventSafe_subscribe (Some 2) h1 = Some (h2, nextId (new_hub :: nat CEvent) + 1)" and
    c: "CEventSafe_subscribe (Some 3) h2 = Some (h3, nextId (new_hub :: nat CEvent) + 2)" and
    t: "snd (CEventSafe_trigger (5 :: int) h3) =
         (map (\<lambda>e. (the (callback e), 5)) (activeEntries (new_hub :: nat CEvent)) @
            [(1, 5), (2, 5), (3, 5)], None)"
    by blast
  from a have h1: "h1 = H1"
    by (simp add: CEventSafe_subscribe_def new_hub_def new_entry_def INT_MAX_def H1_def)
  from b h1 have h2: "h2 = H2"
    by (simp add: CEventSafe_subscribe_def new_entry_def INT_MAX_def H1_def H2_def)
  from c h2 have h3: "h3 = H3"
    by (simp add: CEventSafe_subscribe_def new_entry_def INT_MAX_def H2_def H3_def)
  from a h1 have r1a: "CEventSafe_subscribe (Some 1) (new_hub :: nat CEvent) = Some (H1, 0)"
    by (simp add: new_hub_def)
  from b h1 h2 have r1b: "CEventSafe_subscribe (Some 2) H1 = Some (H2, 1)"
    by (simp add: new_hub_def)
  from c h2 h3 have r1c: "CEventSafe_subscribe (Some 3) H2 = Some (H3, 2)"
    by (simp add: new_hub_def)
  from t h3 have r1: "snd (CEventSafe_trigger (5 :: int) H3) = ([(1, 5), (2, 5), (3, 5)], None)"
    by (simp add: activeEntries_def cleanup_def new_hub_def)
  from at ne' room obtain g1 g2 g3 where
    a': "CEvent_subscribe (Some 1) (new_hub :: nat CEvent) = Some (g1, nextId (new_hub :: nat CEvent))" and
    b': "CEvent_subscribe (Some 2) g1 = Some (g2, nextId (new_hub :: nat CEvent) + 1)" and
    c': "CEvent_subscribe (Some 3) g2 = Some (g3, nextId (new_hub :: nat CEvent) + 2)" and
    t': "snd (CEvent_trigger (5 :: int) g3) =
         (map (\<lambda>e. (the (callback e), 5)) (callbacks (cleanup (new_hub :: nat CEvent))) @
            [(1, 5), (2, 5), (3, 5)], None)"
    by blast
  from a' have g1: "g1 = H1"
    by (simp add: CEvent_subscribe_def new_hub_def new_entry_def INT_MAX_def H1_def)
  from b' g1 have g2: "g2 = H2"
    by (simp add: CEvent_subscribe_def new_entry_def INT_MAX_def H1_def H2_def)
  from c' g2 have g3: "g3 = H3"
    by (simp add: CEvent_subscribe_def new_entry_def INT_MAX_def H2_def H3_def)
  from a' g1 have r2a: "CEvent_subscribe (Some 1) (new_hub :: nat CEvent) = Some (H1, 0)"
    by (simp add: new_hub_def)
  from b' g1 g2 have r2b: "CEvent_subscribe (Some 2) H1 = Some (H2, 1)"
    by (simp add: new_hub_def)
  from c' g2 g3 have r2c: "CEvent_subscribe (Some 3) H2 = Some (H3, 2)"
    by (simp add: new_hub_def)
  from t' g3 have r2: "snd (CEvent_trigger (5 :: int) H3) = ([(1, 5), (2, 5), (3, 5)], None)"
    by (simp add: cleanup_def new_hub_def)
  from at s
  have r3: "CSimpleEvent_trigger (5 :: int)
     (CSimpleEvent_subscribe (Some 3) (CSimpleEvent_subscribe (Some 2)
       (CSimpleEvent_subscribe (Some (1 :: nat)) []))) =
      ([(1, 5), (2, 5), (3, 5)], None)"
    by simp
  from at
  have r4: "CGlobalEvent_trigger (5 :: int)
     (CGlobalEvent_subscribe (Some 3) (CGlobalEvent_subscribe (Some 2)
       (CGlobalEvent_subscribe (Some (1 :: nat)) []))) =
      [(1, 5), (2, 5), (3, 5)]"
    by (simp add: CGlobalEvent_trigger_def)
  from at
  have r5: "fst (CTimedEvent_trigger (5 :: int)
     (CTimedEvent_subscribe (Some 3) (CTimedEvent_subscribe (Some 2)
       (CTimedEvent_subscribe (Some (1 :: nat))
         \<lparr>immediate_callbacks = [], delayed_callbacks = []\<rparr>)))) =
      [(1, 5), (2, 5), (3, 5)]"
    by (simp add: CTimedEvent_trigger_def)
  from r1a r1b r1c r1 r2a r2b r2c r2 r3 r4 r5 show ?thesis
    unfolding H1_def H2_def H3_def by (intro conjI)
qed

text \<open>
  Claim C2. An empty callback should be skipped by \<^verbatim>\<open>trigger\<close> of every hub, the
  other callbacks still being called. \<^verbatim>\<open>CEventSafe::trigger\<close> calls each entry of
  its snapshot without a test: on a new hub, after \<^verbatim>\<open>subscribe\<close> of an empty
  callback and then of the callback \<open>1\<close>, \<^verbatim>\<open>trigger(5)\<close> throws
  \<^verbatim>\<open>std::bad_function_call\<close> and has called nothing. \<^verbatim>\<open>CGlobalEvent::trigger\<close>
  has the test and calls \<open>1\<close> with \<open>5\<close> after the same two registrations.
\<close>

theorem empty_callback_ends_CEventSafe_trigger:
  "CEventSafe_subscribe None (new_hub :: nat CEvent) =
     Some (\<lparr>needsCleanup = False, nextId = 1,
            callbacks = [\<lparr>id_entry = 0, callback = None, active = True\<rparr>]\<rparr>, 0) \<and>
   CEventSafe_subscribe (Some (1 :: nat))
       \<lparr>needsCleanup = False, nextId = 1,
        callbacks = [\<lparr>id_entry = 0, callback = None, active = True\<rparr>]\<rparr> =
     Some (\<lparr>needsCleanup = False, nextId = 2,
            callbacks = [\<lparr>id_entry = 0, callback = None, active = True\<rparr>,
                         \<lparr>id_entry = 1, callback = Some 1, active = True\<rparr>]\<rparr>, 1) \<and>
   snd (CEventSafe_trigger (5 :: int)
       \<lparr>needsCleanup = False, nextId = 2,
        callbacks = [\<lparr>id_entry = 0, callback = None, active = True\<rparr>,
                     \<lparr>id_entry = 1, callback = Some (1 :: nat), active = True\<rparr>]\<rparr>) =
     ([], Some bad_function_call) \<and>
   CGlobalEvent_trigger (5 :: int)
       (CGlobalEvent_subscribe (Some (1 :: nat)) (CGlobalEvent_subscribe None [])) =
     [(1, 5)]"
  by (simp add: CEventSafe_subscribe_def new_hub_def new_entry_def INT_MAX_def
      CEventSafe_trigger_def activeEntries_def cleanup_def
      CGlobalEvent_trigger_def CGlobalEvent_subscribe_def)

text \<open>
  Claim C3, as stated, fails for \<^verbatim>\<open>subscribe\<close>: a hub holds one entry, the handle of
  that entry is dropped (\<^verbatim>\<open>unsubscribe(0)\<close>), and the next call is
  \<^verbatim>\<open>subscribe\<close>. The inactive entry is still stored after it.
\<close>

theorem subscribe_keeps_inactive_entries:
  "CEventSafe_unsubscribe 0
       \<lparr>needsCleanup = False, nextId = 1,
        callbacks = [\<lparr>id_entry = 0, callback = Some (1 :: nat), active = True\<rparr>]\<rparr> =
     \<lparr>needsCleanup = True, nextId = 1,
      callbacks = [\<lparr>id_entry = 0, callback = Some 1, active = False\<rparr>]\<rparr> \<and>
   CEventSafe_subscribe (Some 2)
       \<lparr>needsCleanup = True, nextId = 1,
        callbacks = [\<lparr>id_entry = 0, callback = Some (1 :: nat), active = False\<rparr>]\<rparr> =
     Some (\<lparr>needsCleanup = True, nextId = 2,
            callbacks = [\<lparr>id_entry = 0, callback = Some 1, active = False\<rparr>,
                         \<lparr>id_entry = 1, callback = Some 2, active = True\<rparr>]\<rparr>, 1) \<and>
   inactive_count
       \<lparr>needsCleanup = True, nextId = 2,
        callbacks = [\<lparr>id_entry = 0, callback = Some (1 :: nat), active = False\<rparr>,
                     \<lparr>id_entry = 1, callback = Some 2, active = True\<rparr>]\<rparr> = 1"
  by (simp add: CEventSafe_unsubscribe_def CEventSafe_subscribe_def new_entry_def INT_MAX_def
      inactive_count_def)

text \<open>
  Claim C3, amended. On a hub that satisfies \<open>hub_inv\<close>, the next call to
  \<^verbatim>\<open>trigger\<close> removes every inactive entry and keeps the active ones: no inactive
  entry is stored after it, and when every entry is inactive (every handle has been
  dropped) the list is empty and nothing is called. \<^verbatim>\<open>subscribe\<close> removes nothing:
  the inactive entries stored before it are stored after it.
\<close>

theorem trigger_removes_inactive_entries:
  assumes "hub_inv h"
  shows "inactive_count (fst (CEventSafe_trigger x h)) = 0 \<and>
         callbacks (fst (CEventSafe_trigger x h)) = filter active (callbacks h) \<and>
         ((\<forall>e \<in> set (callbacks h). \<not> active e) \<longrightarrow>
            callbacks (fst (CEventSafe_trigger x h)) = [] \<and>
            snd (CEventSafe_trigger x h) = ([], None)) \<and>
         (\<forall>cb h' i. CEventSafe_subscribe cb h = Some (h', i) \<longrightarrow>
            inactive_count h' = inactive_count h \<and>
            filter (\<lambda>e. \<not> active e) (callbacks h') = filter (\<lambda>e. \<not> active e) (callbacks h))"
proof -
  have cb: "callbacks (fst (CEventSafe_trigger x h)) = filter active (callbacks h)"
    using assms by (simp add: CEventSafe_trigger_def cleanup_callbacks_inv)
  then have cnt: "inactive_count (fst (CEventSafe_trigger x h)) = 0"
    by (simp add: inactive_count_def)
  have none: "(\<forall>e \<in> set (callbacks h). \<not> active e) \<longrightarrow>
            callbacks (fst (CEventSafe_trigger x h)) = [] \<and>
            snd (CEventSafe_trigger x h) = ([], None)"
    using assms
    by (simp add: CEventSafe_trigger_def activeEntries_eq cleanup_callbacks_inv filter_empty_conv)
  have sub: "\<forall>cb h' i. CEventSafe_subscribe cb h = Some (h', i) \<longrightarrow>
            inactive_count h' = inactive_count h \<and>
            filter (\<lambda>e. \<not> active e) (callbacks h') = filter (\<lambda>e. \<not> active e) (callbacks h)"
    by (auto dest!: subscribe_Some simp: inactive_count_def new_entry_def)
  show ?thesis
    by (rule conjI [OF cnt conjI [OF cb conjI [OF none sub]]])
qed

theorem trigger_removes_inactive_witness:
  "hub_inv \<lparr>needsCleanup = True, nextId = 1,
        callbacks = [\<lparr>id_entry = 0, callback = Some (1 :: nat), active = False\<rparr>]\<rparr> \<and>
   fst (CEventSafe_trigger (5 :: int)
      \<lparr>needsCleanup = True, nextId = 1,
        callbacks = [\<lparr>id_entry = 0, callback = Some (1 :: nat), active = False\<rparr>]\<rparr>) =
      \<lparr>needsCleanup = False, nextId = 1, callbacks = []\<rparr> \<and>
   inactive_count (fst (CEventSafe_trigger (5 :: int)
      \<lparr>needsCleanup = True, nextId = 1,
        callbacks = [\<lparr>id_entry = 0, callback = Some (1 :: nat), active = False\<rparr>]\<rparr>)) = 0 \<and>
   snd (CEventSafe_trigger (5 :: int)
      \<lparr>needsCleanup = True, nextId = 1,
        callbacks = [\<lparr>id_entry = 0, callback = Some (1 :: nat), active = False\<rparr>]\<rparr>) = ([], None) \<and>
   inactive_count (fst (the (CEventSafe_subscribe (Some 2)
      \<lparr>needsCleanup = True, nextId = 1,
        callbacks = [\<lparr>id_entry = 0, callback = Some (1 :: nat), active = False\<rparr>]\<rparr>))) = 1"
proof -
  define H :: "nat CEvent" where "H = \<lparr>needsCleanup = True, nextId = 1,
        callbacks = [\<lparr>id_entry = 0, callback = Some (1 :: nat), active = False\<rparr>]\<rparr>"
  define H' :: "nat CEvent" where "H' = \<lparr>needsCleanup = True, nextId = 2,
            callbacks = [\<lparr>id_entry = 0, callback = Some 1, active = False\<rparr>,
                         \<lparr>id_entry = 1, callback = Some 2, active = True\<rparr>]\<rparr>"
  have inv: "hub_inv H"
    by (simp add: hub_inv_def H_def)
  have all: "\<forall>e \<in> set (callbacks H). \<not> active e"
    by (simp add: H_def)
  have sub: "CEventSafe_subscribe (Some 2) H = Some (H', 1)"
    by (simp add: CEventSafe_subscribe_def new_entry_def INT_MAX_def H_def H'_def)
  note at = trigger_removes_inactive_entries [OF inv, of "5 :: int"]
  have r1: "fst (CEventSafe_trigger (5 :: int) H) = \<lparr>needsCleanup = False, nextId = 1, callbacks = []\<rparr>"
    by (simp add: CEventSafe_trigger_def cleanup_def H_def)
  from at have r2: "inactive_count (fst (CEventSafe_trigger (5 :: int) H)) = 0"
    by blast
  from at all have r3: "snd (CEventSafe_trigger (5 :: int) H) = ([], None)"
    by blast
  from at sub have "inactive_count H' = inactive_count H"
    by blast
  then have r4: "inactive_count (fst (the (CEventSafe_subscribe (Some 2) H))) = 1"
    by (simp add: sub) (simp add: inactive_count_def H_def)
  from inv r1 r2 r3 r4 show ?thesis
    unfolding H_def by (intro conjI)
qed

section \<open>Handles and their hubs\<close>

lemma owners_Nil:
  "owners a i w = [] \<longleftrightarrow>
     (\<forall>p \<in> set (handles w). \<not> (event (snd p) = Some a \<and> id_sub (snd p) = i))"
  by (simp add: owners_def filter_empty_conv)

lemma owners_set:
  "set (owners a i w) =
     {v. \<exists>s. (v, s) \<in> set (handles w) \<and> event s = Some a \<and> id_sub s = i}"
  by (force simp: owners_def)

lemma owners_map_of:
  "distinct (map fst (handles w)) \<Longrightarrow>
   set (owners a i w) =
     {v. \<exists>s. map_of (handles w) v = Some s \<and> event s = Some a \<and> id_sub s = i}"
  by (auto simp: owners_set)

lemma map_of_rewrite:
  assumes "\<And>p. fst (g p) = fst p"
  shows "map_of (map g xs) k =
           (case map_of xs k of None \<Rightarrow> None | Some s \<Rightarrow> Some (snd (g (k, s))))"
proof (induction xs)
  case Nil
  then show ?case by simp
next
  case (Cons x xs)
  have key: "fst (g x) = fst x" by (rule assms)
  show ?case
  proof (cases "fst x = k")
    case True
    then have "x = (k, snd x)" by auto
    then have "g (k, snd x) = g x" by simp
    with True key show ?thesis by simp
  next
    case False
    with key Cons show ?thesis by simp
  qed
qed

lemma keys_rewrite:
  assumes "\<And>p. fst (g p) = fst p"
  shows "map fst (map g xs) = map fst xs"
  using assms by simp

lemma map_of_drop_key:
  "map_of (filter (\<lambda>p. fst p \<noteq> v) xs) k = (if k = v then None else map_of xs k)"
  by (induction xs) auto

lemma Subscription_destroy_at:
  "Subscription_destroy s H b =
     (if event s = Some b then map_option (CEventSafe_unsubscribe (id_sub s)) (H b) else H b)"
  by (auto simp: Subscription_destroy_def split: option.splits)

lemma Subscription_destroy_moved_from: "Subscription_destroy moved_from H = H"
  by (simp add: Subscription_destroy_def moved_from_def)

lemma Subscription_destroy_owner:
  "event s = Some a \<Longrightarrow> H a = Some h \<Longrightarrow>
   Subscription_destroy s H = H(a \<mapsto> CEventSafe_unsubscribe (id_sub s) h)"
  by (simp add: Subscription_destroy_def)

lemma entry_kept_unsubscribe:
  assumes "e \<in> set (callbacks h)" and "id_entry e \<noteq> j"
  shows "e \<in> set (callbacks (CEventSafe_unsubscribe j h))"
proof (cases "find_if (\<lambda>e. id_entry e = j) (callbacks h) = length (callbacks h)")
  case True
  with assms show ?thesis by (simp add: CEventSafe_unsubscribe_def)
next
  case False
  define k where "k = find_if (\<lambda>e. id_entry e = j) (callbacks h)"
  from False have "id_entry (callbacks h ! k) = j"
    unfolding k_def by (rule find_if_found)
  with assms(2) have ne: "e \<noteq> callbacks h ! k" by auto
  from assms(1) obtain m where m: "m < length (callbacks h)" "callbacks h ! m = e"
    by (auto simp: in_set_conv_nth)
  with ne have "m \<noteq> k" by auto
  with m have "(callbacks h)[k := (callbacks h ! k)\<lparr>active := False\<rparr>] ! m = e"
    by simp
  with m(1) have "e \<in> set ((callbacks h)[k := (callbacks h ! k)\<lparr>active := False\<rparr>])"
    by (metis length_list_update nth_mem)
  with False show ?thesis
    by (simp add: CEventSafe_unsubscribe_def Let_def k_def)
qed

lemma entry_kept_cleanup:
  "e \<in> set (callbacks h) \<Longrightarrow> active e \<Longrightarrow> e \<in> set (callbacks (cleanup h))"
  by (simp add: cleanup_def)

lemma nextId_cleanup: "nextId (cleanup h) = nextId h"
  by (simp add: cleanup_def)

lemma no_entry_after_unsubscribe:
  "hub_inv h \<Longrightarrow> \<forall>e \<in> set (activeEntries (CEventSafe_unsubscribe i h)). id_entry e \<noteq> i"
  by (simp add: activeEntries_unsubscribe hub_inv_def)

lemma trigger_calls_entry:
  assumes "e \<in> set (activeEntries h)"
    and "\<forall>e' \<in> set (activeEntries h). callback e' \<noteq> None"
  shows "(the (callback e), x) \<in> set (fst (snd (CEventSafe_trigger x h)))"
  using assms by (simp add: CEventSafe_trigger_def invoke_each_entries)

lemma step_distinct:
  assumes "distinct (map fst (handles w))" and "step p w = Some w'"
  shows "distinct (map fst (handles w'))"
proof (cases p)
  case (Subscribe a cb v)
  with assms show ?thesis
    by (auto split: option.splits if_splits)
next
  case (Trigger a x)
  with assms show ?thesis by (auto split: option.splits)
next
  case (Destroy v)
  with assms show ?thesis
    by (auto simp: distinct_map_filter split: option.splits)
next
  case (MoveConstruct v u)
  have "fst \<circ> (\<lambda>p. if fst p = u then (u, moved_from) else p) = fst"
    by (auto simp: fun_eq_iff)
  with MoveConstruct assms show ?thesis
    by (auto split: option.splits if_splits)
next
  case (MoveAssign v u)
  have "fst \<circ> (\<lambda>p. if fst p = v then (v, moved_to other)
            else if fst p = u then (u, moved_from) else p) = fst" for other
    by (auto simp: fun_eq_iff)
  with MoveAssign assms show ?thesis
    by (auto split: option.splits if_splits)
next
  case (DestroyHub a)
  with assms show ?thesis by (auto split: option.splits)
qed

lemma step_MoveConstruct:
  assumes "step (MoveConstruct v u) w = Some w1"
  shows "\<exists>other. map_of (handles w) u = Some other \<and> v \<notin> fst ` set (handles w) \<and>
           hubs w1 = hubs w \<and>
           map_of (handles w1) = (map_of (handles w))(u \<mapsto> moved_from, v \<mapsto> moved_to other)"
proof -
  from assms obtain other where o: "map_of (handles w) u = Some other"
    and fresh: "v \<notin> fst ` set (handles w)"
    and w1: "w1 = w\<lparr>handles := (v, moved_to other) #
                 map (\<lambda>p. if fst p = u then (u, moved_from) else p) (handles w)\<rparr>"
    by (auto split: option.splits if_splits)
  have "map_of (map (\<lambda>p. if fst p = u then (u, moved_from) else p) (handles w)) k =
        ((map_of (handles w))(u \<mapsto> moved_from)) k" for k
    using o by (simp add: map_of_rewrite [of "\<lambda>p. if fst p = u then (u, moved_from) else p"]
        split: option.splits)
  then have "map_of (handles w1) = (map_of (handles w))(u \<mapsto> moved_from, v \<mapsto> moved_to other)"
    by (auto simp: w1 fun_eq_iff)
  with o fresh w1 show ?thesis by simp
qed

lemma step_MoveAssign:
  assumes "step (MoveAssign v u) w = Some w1" and "v \<noteq> u"
  shows "\<exists>other this. map_of (handles w) u = Some other \<and> map_of (handles w) v = Some this \<and>
           hubs w1 = hubs w \<and>
           map_of (handles w1) = (map_of (handles w))(u \<mapsto> moved_from, v \<mapsto> moved_to other)"
proof -
  from assms obtain other this where o: "map_of (handles w) u = Some other"
    and t: "map_of (handles w) v = Some this"
    and w1: "w1 = w\<lparr>handles := map (\<lambda>p. if fst p = v then (v, moved_to other)
                   else if fst p = u then (u, moved_from) else p) (handles w)\<rparr>"
    by (auto split: option.splits if_splits)
  have "map_of (map (\<lambda>p. if fst p = v then (v, moved_to other)
                   else if fst p = u then (u, moved_from) else p) (handles w)) k =
        ((map_of (handles w))(u \<mapsto> moved_from, v \<mapsto> moved_to other)) k" for k
    using o t
    by (simp add: map_of_rewrite [of "\<lambda>p. if fst p = v then (v, moved_to other)
                   else if fst p = u then (u, moved_from) else p"]
        split: option.splits)
  then have "map_of (handles w1) = (map_of (handles w))(u \<mapsto> moved_from, v \<mapsto> moved_to other)"
    by (auto simp: w1 fun_eq_iff)
  with o t w1 show ?thesis by simp
qed

lemma step_Destroy:
  assumes "map_of (handles w) v = Some s"
  shows "\<exists>w'. step (Destroy v) w = Some w' \<and> hubs w' = Subscription_destroy s (hubs w) \<and>
           map_of (handles w') = (map_of (handles w))(v := None) \<and>
           (distinct (map fst (handles w)) \<longrightarrow> distinct (map fst (handles w')))"
  using assms by (auto simp: map_of_drop_key fun_eq_iff distinct_map_filter)

lemma moves_keep_hubs:
  "list_all is_move ms \<Longrightarrow> run ms w = Some w' \<Longrightarrow> hubs w' = hubs w"
proof (induction ms arbitrary: w)
  case Nil
  then show ?case by simp
next
  case (Cons p ms)
  from Cons.prems(2) obtain w1 where w1: "step p w = Some w1" "run ms w1 = Some w'"
    by (auto split: option.splits)
  from Cons.prems(1) have "is_move p" "list_all is_move ms" by simp_all
  from \<open>is_move p\<close> w1(1) have "hubs w1 = hubs w"
    by (cases p) (auto simp: is_move_def split: option.splits if_splits)
  with Cons.IH [OF \<open>list_all is_move ms\<close> w1(2)] show ?case by simp
qed

lemma orphan_step:
  assumes hub: "hubs w a = Some h"
    and e: "e \<in> set (callbacks h)" "active e" "id_entry e < nextId h"
    and own: "owners a (id_entry e) w = []"
    and st: "step p w = Some w'"
    and alive: "p \<noteq> DestroyHub a"
  shows "\<exists>h'. hubs w' a = Some h' \<and> e \<in> set (callbacks h') \<and> id_entry e < nextId h' \<and>
           owners a (id_entry e) w' = []"
proof (cases p)
  case (Subscribe b cb v)
  with st obtain hb hb' i where
    b: "hubs w b = Some hb" "CEventSafe_subscribe cb hb = Some (hb', i)" and
    w': "w' = w\<lparr>hubs := (hubs w)(b \<mapsto> hb'),
                 handles := (v, \<lparr>event = Some b, id_sub = i\<rparr>) # handles w\<rparr>"
    by (auto split: option.splits if_splits)
  from b(2) have i: "i = nextId hb"
    and hb': "hb' = hb\<lparr>nextId := nextId hb + 1, callbacks := callbacks hb @ [new_entry (nextId hb) cb]\<rparr>"
    by (auto simp: CEventSafe_subscribe_def Let_def split: if_splits)
  show ?thesis
  proof (cases "b = a")
    case True
    with hub b(1) have "hb = h" by simp
    with True w' hb' i e own show ?thesis
      by (auto simp: owners_Nil)
  next
    case False
    with w' hub e own show ?thesis
      by (auto simp: owners_Nil)
  qed
next
  case (Trigger b x)
  with st obtain hb where b: "hubs w b = Some hb"
    and w': "w' = w\<lparr>hubs := (hubs w)(b \<mapsto> fst (CEventSafe_trigger x hb))\<rparr>"
    by (auto split: option.splits)
  show ?thesis
  proof (cases "b = a")
    case True
    with hub b have "hb = h" by simp
    with True w' e own show ?thesis
      by (auto simp: owners_Nil CEventSafe_trigger_def entry_kept_cleanup nextId_cleanup)
  next
    case False
    with w' hub e own show ?thesis
      by (auto simp: owners_Nil)
  qed
next
  case (Destroy v)
  with st obtain s where s: "map_of (handles w) v = Some s"
    and w': "w' = w\<lparr>hubs := Subscription_destroy s (hubs w),
                 handles := filter (\<lambda>p. fst p \<noteq> v) (handles w)\<rparr>"
    by (auto split: option.splits)
  from s have "(v, s) \<in> set (handles w)" by (rule map_of_SomeD)
  with own have ns: "\<not> (event s = Some a \<and> id_sub s = id_entry e)"
    by (auto simp: owners_Nil)
  have own': "owners a (id_entry e) w' = []"
    using own w' by (auto simp: owners_Nil)
  show ?thesis
  proof (cases "event s = Some a")
    case True
    with ns have "id_entry e \<noteq> id_sub s" by auto
    with e(1) have "e \<in> set (callbacks (CEventSafe_unsubscribe (id_sub s) h))"
      by (rule entry_kept_unsubscribe)
    with True hub e(3) own' w' show ?thesis
      by (simp add: Subscription_destroy_at unsubscribe_nextId)
  next
    case False
    with hub e own' w' show ?thesis
      by (simp add: Subscription_destroy_at)
  qed
next
  case (MoveConstruct v u)
  with st obtain other where o: "map_of (handles w) u = Some other"
    and w': "w' = w\<lparr>handles := (v, moved_to other) #
                 map (\<lambda>p. if fst p = u then (u, moved_from) else p) (handles w)\<rparr>"
    by (auto split: option.splits if_splits)
  from o have "(u, other) \<in> set (handles w)" by (rule map_of_SomeD)
  with own have "\<not> (event other = Some a \<and> id_sub other = id_entry e)"
    by (auto simp: owners_Nil)
  with own w' have "owners a (id_entry e) w' = []"
    by (auto simp: owners_Nil moved_to_def moved_from_def)
  with hub e w' show ?thesis by simp
next
  case (MoveAssign v u)
  show ?thesis
  proof (cases "v = u")
    case True
    with MoveAssign st have "w' = w" by (auto split: option.splits)
    with hub e own show ?thesis by simp
  next
    case False
    with MoveAssign st obtain other where o: "map_of (handles w) u = Some other"
      and w': "w' = w\<lparr>handles := map (\<lambda>p. if fst p = v then (v, moved_to other)
                   else if fst p = u then (u, moved_from) else p) (handles w)\<rparr>"
      by (auto split: option.splits)
    from o have "(u, other) \<in> set (handles w)" by (rule map_of_SomeD)
    with own have "\<not> (event other = Some a \<and> id_sub other = id_entry e)"
      by (auto simp: owners_Nil)
    with own w' have "owners a (id_entry e) w' = []"
      by (auto simp: owners_Nil moved_to_def moved_from_def)
    with hub e w' show ?thesis by simp
  qed
next
  case (DestroyHub b)
  with alive have "b \<noteq> a" by simp
  with DestroyHub st hub e own show ?thesis
    by (auto simp: owners_Nil split: option.splits)
qed

lemma orphan_run:
  assumes "run ps w = Some w'"
    and "hubs w a = Some h"
    and "e \<in> set (callbacks h)" "active e" "id_entry e < nextId h"
    and "owners a (id_entry e) w = []"
    and "DestroyHub a \<notin> set ps"
  shows "\<exists>h'. hubs w' a = Some h' \<and> e \<in> set (callbacks h') \<and> id_entry e < nextId h' \<and>
           owners a (id_entry e) w' = []"
  using assms
proof (induction ps arbitrary: w h)
  case Nil
  then show ?case by simp
next
  case (Cons p ps)
  from Cons.prems(1) obtain w1 where w1: "step p w = Some w1" "run ps w1 = Some w'"
    by (auto split: option.splits)
  from Cons.prems(7) have p: "p \<noteq> DestroyHub a" and ps: "DestroyHub a \<notin> set ps"
    by auto
  from orphan_step [OF Cons.prems(2) Cons.prems(3) Cons.prems(4) Cons.prems(5) Cons.prems(6) w1(1) p]
  obtain h1 where h1: "hubs w1 a = Some h1" "e \<in> set (callbacks h1)" "id_entry e < nextId h1"
    "owners a (id_entry e) w1 = []"
    by blast
  show ?case
    by (rule Cons.IH [OF w1(2) h1(1) h1(2) Cons.prems(4) h1(3) h1(4) ps])
qed

lemma held_step:
  assumes hub: "hubs w a = Some h" "hub_inv h"
    and v: "map_of (handles w) v = Some s"
    and st: "step p w = Some w'"
    and other: "\<not> uses_handle v p" "p \<noteq> DestroyHub a"
  shows "\<exists>h'. hubs w' a = Some h' \<and> hub_inv h' \<and> map_of (handles w') v = Some s"
proof (cases p)
  case (Subscribe b cb u)
  with st obtain hb hb' i where
    b: "hubs w b = Some hb" "CEventSafe_subscribe cb hb = Some (hb', i)" and
    w': "w' = w\<lparr>hubs := (hubs w)(b \<mapsto> hb'),
                 handles := (u, \<lparr>event = Some b, id_sub = i\<rparr>) # handles w\<rparr>"
    by (auto split: option.splits if_splits)
  from Subscribe other(1) have "u \<noteq> v" by simp
  with v w' have keep: "map_of (handles w') v = Some s" by simp
  show ?thesis
  proof (cases "b = a")
    case True
    with hub b(1) have "hb = h" by simp
    with hub(2) b(2) have "hub_inv hb'" by (auto intro: hub_inv_subscribe)
    with True w' keep show ?thesis by simp
  next
    case False
    with hub w' keep show ?thesis by simp
  qed
next
  case (Trigger b x)
  with st obtain hb where b: "hubs w b = Some hb"
    and w': "w' = w\<lparr>hubs := (hubs w)(b \<mapsto> fst (CEventSafe_trigger x hb))\<rparr>"
    by (auto split: option.splits)
  show ?thesis
  proof (cases "b = a")
    case True
    with hub b have "hb = h" by simp
    with True w' hub(2) v show ?thesis
      by (simp add: hub_inv_trigger)
  next
    case False
    with w' hub v show ?thesis by simp
  qed
next
  case (Destroy u)
  from Destroy other(1) have ne: "u \<noteq> v" by simp
  from Destroy st obtain t where t: "map_of (handles w) u = Some t"
    by (auto split: option.splits)
  from step_Destroy [OF t] Destroy st
  have w': "hubs w' = Subscription_destroy t (hubs w)"
    "map_of (handles w') = (map_of (handles w))(u := None)"
    by auto
  from w'(2) ne v have keep: "map_of (handles w') v = Some s" by simp
  have "\<exists>h'. hubs w' a = Some h' \<and> hub_inv h'"
    using hub by (auto simp: w'(1) Subscription_destroy_at hub_inv_unsubscribe)
  with keep show ?thesis by blast
next
  case (MoveConstruct u u')
  with other(1) have ne: "u \<noteq> v" "u' \<noteq> v" by simp_all
  from step_MoveConstruct [of u u' w w'] MoveConstruct st ne v hub show ?thesis
    by auto
next
  case (MoveAssign u u')
  with other(1) have ne: "u \<noteq> v" "u' \<noteq> v" by simp_all
  show ?thesis
  proof (cases "u = u'")
    case True
    with MoveAssign st have "w' = w" by (auto split: option.splits)
    with hub v show ?thesis by simp
  next
    case False
    from step_MoveAssign [of u u' w w'] MoveAssign st ne v hub False show ?thesis
      by auto
  qed
next
  case (DestroyHub b)
  with other(2) have "b \<noteq> a" by simp
  with DestroyHub st hub v show ?thesis
    by (auto split: option.splits)
qed

lemma held_run:
  assumes "run ps w = Some w'"
    and "hubs w a = Some h" "hub_inv h"
    and "map_of (handles w) v = Some s"
    and "\<forall>p \<in> set ps. \<not> uses_handle v p \<and> p \<noteq> DestroyHub a"
  shows "\<exists>h'. hubs w' a = Some h' \<and> hub_inv h' \<and> map_of (handles w') v = Some s"
  using assms
proof (induction ps arbitrary: w h)
  case Nil
  then show ?case by simp
next
  case (Cons p ps)
  from Cons.prems(1) obtain w1 where w1: "step p w = Some w1" "run ps w1 = Some w'"
    by (auto split: option.splits)
  from Cons.prems(5) have p: "\<not> uses_handle v p" "p \<noteq> DestroyHub a"
    and ps: "\<forall>p \<in> set ps. \<not> uses_handle v p \<and> p \<noteq> DestroyHub a"
    by simp_all
  from held_step [OF Cons.prems(2) Cons.prems(3) Cons.prems(4) w1(1) p]
  obtain h1 where h1: "hubs w1 a = Some h1" "hub_inv h1" "map_of (handles w1) v = Some s"
    by blast
  show ?case
    by (rule Cons.IH [OF w1(2) h1(1) h1(2) h1(3) ps])
qed

lemma move_keeps_unique:
  fixes m :: "var \<rightharpoonup> Subscription"
  assumes uniq: "\<And>k k' s s' a. m k = Some s \<Longrightarrow> m k' = Some s' \<Longrightarrow>
        event s = Some a \<Longrightarrow> event s' = Some a \<Longrightarrow> id_sub s = id_sub s' \<Longrightarrow> k = k'"
    and o: "m u = Some other"
    and m': "m' = m(u \<mapsto> moved_from, v \<mapsto> moved_to other)"
    and k: "m' k = Some s" "event s = Some a"
    and k': "m' k' = Some s'" "event s' = Some a"
    and same: "id_sub s = id_sub s'"
  shows "k = k'"
proof -
  have not_u: "j \<noteq> u" if "m' j = Some t" "event t = Some a" "j \<noteq> v" for j t
  proof
    assume "j = u"
    with that(1,3) m' have "t = moved_from" by simp
    with that(2) show False by (simp add: moved_from_def)
  qed
  have at_v: "event other = Some a \<and> id_sub t = id_sub other"
    if "m' v = Some t" "event t = Some a" for t
  proof -
    from that(1) m' have "t = moved_to other" by simp
    with that(2) show ?thesis by (simp add: moved_to_def)
  qed
  have old: "m j = Some t" if "m' j = Some t" "event t = Some a" "j \<noteq> v" for j t
    using that not_u [OF that] m' by simp
  have clash: False
    if "m' v = Some t" "event t = Some a" "m' j = Some t'" "event t' = Some a" "j \<noteq> v"
      "id_sub t = id_sub t'" for j t t'
  proof -
    from at_v [OF that(1,2)] have ev: "event other = Some a" and id: "id_sub t = id_sub other"
      by simp_all
    from old [OF that(3,4,5)] have mj: "m j = Some t'" .
    from that(6) id have "id_sub t' = id_sub other" by simp
    from uniq [OF mj o that(4) ev this] have "j = u" .
    with not_u [OF that(3,4,5)] show False by simp
  qed
  show ?thesis
  proof (cases "k = v")
    case True
    show ?thesis
    proof (cases "k' = v")
      case True
      with \<open>k = v\<close> show ?thesis by simp
    next
      case False
      from k(1) True have "m' v = Some s" by simp
      from clash [OF this k(2) k'(1) k'(2) False same] show ?thesis ..
    qed
  next
    case False
    show ?thesis
    proof (cases "k' = v")
      case True
      with k'(1) have "m' v = Some s'" by simp
      from clash [OF this k'(2) k(1) k(2) False same [symmetric]] show ?thesis ..
    next
      case k'v: False
      from old [OF k(1) k(2) False] old [OF k'(1) k'(2) k'v] k(2) k'(2) same
      show ?thesis by (rule uniq)
    qed
  qed
qed

lemma move_keeps_below:
  fixes m :: "var \<rightharpoonup> Subscription"
  assumes below: "\<And>k s a h. m k = Some s \<Longrightarrow> event s = Some a \<Longrightarrow> H a = Some h \<Longrightarrow>
        id_sub s < nextId h"
    and o: "m u = Some other"
    and m': "m' = m(u \<mapsto> moved_from, v \<mapsto> moved_to other)"
    and k: "m' k = Some s" "event s = Some a" "H a = Some h"
  shows "id_sub s < nextId h"
proof (cases "k = v")
  case True
  with k(1) m' have "s = moved_to other" by simp
  with k(2) have "event other = Some a" "id_sub s = id_sub other"
    by (simp_all add: moved_to_def)
  with below [OF o this(1) k(3)] show ?thesis by simp
next
  case False
  show ?thesis
  proof (cases "k = u")
    case True
    with False k(1) m' have "s = moved_from" by simp
    with k(2) show ?thesis by (simp add: moved_from_def)
  next
    case ku: False
    with False k(1) m' have "m k = Some s" by simp
    from below [OF this k(2) k(3)] show ?thesis .
  qed
qed

lemma world_inv_start:
  "\<forall>a h. H a = Some h \<longrightarrow> h = new_hub \<Longrightarrow> world_inv \<lparr>hubs = H, handles = []\<rparr>"
  by (simp add: world_inv_def) (metis hub_inv_new_hub)

lemma world_inv_step:
  assumes inv: "world_inv w" and st: "step p w = Some w'"
  shows "world_inv w'"
proof -
  define m where "m = map_of (handles w)"
  note parts = inv [unfolded world_inv_def]
  note names = parts [THEN conjunct1]
  note hubs_all = parts [THEN conjunct2, THEN conjunct1]
  note below_all = parts [THEN conjunct2, THEN conjunct2, THEN conjunct1]
  note uniq_all = parts [THEN conjunct2, THEN conjunct2, THEN conjunct2]
  have hubs_ok: "hub_inv h" if "hubs w a = Some h" for a h
    by (rule hubs_all [rule_format, of a h]) (rule that)
  have below: "id_sub s < nextId h" if "m k = Some s" "event s = Some a" "hubs w a = Some h"
    for k s a h
    by (rule below_all [rule_format, of k s a h]) (insert that, simp add: m_def)
  have uniq: "k = k'" if "m k = Some s" "m k' = Some s'" "event s = Some a" "event s' = Some a"
    "id_sub s = id_sub s'" for k k' s s' a
    by (rule uniq_all [rule_format, of k s k' s' a]) (insert that, simp add: m_def)
  have names': "distinct (map fst (handles w'))"
    using names st by (rule step_distinct)
  show ?thesis
  proof (cases p)
    case (Subscribe b cb v)
    with st obtain hb hb' i where
      b: "hubs w b = Some hb" "CEventSafe_subscribe cb hb = Some (hb', i)" and
      fresh: "v \<notin> fst ` set (handles w)" and
      w': "w' = w\<lparr>hubs := (hubs w)(b \<mapsto> hb'),
                   handles := (v, \<lparr>event = Some b, id_sub = i\<rparr>) # handles w\<rparr>"
      by (auto split: option.splits if_splits)
    from b(2) have i: "i = nextId hb" and n: "nextId hb' = nextId hb + 1"
      by (auto simp: CEventSafe_subscribe_def Let_def split: if_splits)
    from fresh have mv: "m v = None"
      by (simp add: m_def map_of_eq_None_iff)
    have m': "map_of (handles w') = m(v \<mapsto> \<lparr>event = Some b, id_sub = i\<rparr>)"
      by (auto simp: w' m_def fun_eq_iff)
    have h': "hubs w' = (hubs w)(b \<mapsto> hb')"
      by (simp add: w')
    have 1: "\<forall>a h. hubs w' a = Some h \<longrightarrow> hub_inv h"
      using hubs_ok b hub_inv_subscribe [OF _ b(2)] by (auto simp: h')
    have 2: "\<forall>k s a h. map_of (handles w') k = Some s \<and> event s = Some a \<and> hubs w' a = Some h \<longrightarrow>
        id_sub s < nextId h"
    proof (intro allI impI)
      fix k s a h
      assume a: "map_of (handles w') k = Some s \<and> event s = Some a \<and> hubs w' a = Some h"
      show "id_sub s < nextId h"
      proof (cases "k = v")
        case True
        with a m' h' i n show ?thesis by auto
      next
        case False
        with a m' have ms: "m k = Some s" by simp
        show ?thesis
        proof (cases "a = b")
          case True
          with a h' have "h = hb'" by simp
          with below [OF ms _ b(1)] a True n show ?thesis by simp
        next
          case False
          with a h' below [OF ms] show ?thesis by simp
        qed
      qed
    qed
    have 3: "\<forall>k k' s s' a. map_of (handles w') k = Some s \<and> map_of (handles w') k' = Some s' \<and>
        event s = Some a \<and> event s' = Some a \<and> id_sub s = id_sub s' \<longrightarrow> k = k'"
    proof (intro allI impI)
      fix k k' s s' a
      assume a: "map_of (handles w') k = Some s \<and> map_of (handles w') k' = Some s' \<and>
        event s = Some a \<and> event s' = Some a \<and> id_sub s = id_sub s'"
      have clash: False if "m j = Some t" "event t = Some b" "id_sub t = i" for j t
        using below [OF that(1) that(2) b(1)] that(3) i by simp
      show "k = k'"
      proof (cases "k = v")
        case True
        show ?thesis
        proof (cases "k' = v")
          case True
          with \<open>k = v\<close> show ?thesis by simp
        next
          case False
          with a m' True clash [of k' s'] show ?thesis by auto
        qed
      next
        case False
        show ?thesis
        proof (cases "k' = v")
          case True
          with a m' False clash [of k s] show ?thesis by auto
        next
          case k': False
          with False a m' uniq [of k s k' s' a] show ?thesis by simp
        qed
      qed
    qed
    show ?thesis
      unfolding world_inv_def by (rule conjI [OF names' conjI [OF 1 conjI [OF 2 3]]])
  next
    case (Trigger b x)
    with st obtain hb where b: "hubs w b = Some hb"
      and w': "w' = w\<lparr>hubs := (hubs w)(b \<mapsto> fst (CEventSafe_trigger x hb))\<rparr>"
      by (auto split: option.splits)
    have n: "nextId (fst (CEventSafe_trigger x hb)) = nextId hb"
      by (simp add: CEventSafe_trigger_def nextId_cleanup)
    have 1: "\<forall>a h. hubs w' a = Some h \<longrightarrow> hub_inv h"
      using hubs_ok b hub_inv_trigger [of hb x] by (auto simp: w')
    have 2: "\<forall>k s a h. map_of (handles w') k = Some s \<and> event s = Some a \<and> hubs w' a = Some h \<longrightarrow>
        id_sub s < nextId h"
      using below b n by (auto simp: w' m_def split: if_splits)
    have 3: "\<forall>k k' s s' a. map_of (handles w') k = Some s \<and> map_of (handles w') k' = Some s' \<and>
        event s = Some a \<and> event s' = Some a \<and> id_sub s = id_sub s' \<longrightarrow> k = k'"
      using uniq by (auto simp: w' m_def)
    show ?thesis
      unfolding world_inv_def by (rule conjI [OF names' conjI [OF 1 conjI [OF 2 3]]])
  next
    case (Destroy v)
    with st obtain t where t: "m v = Some t"
      by (auto simp: m_def split: option.splits)
    from step_Destroy [of w v t] t Destroy st
    have h': "hubs w' = Subscription_destroy t (hubs w)"
      and m': "map_of (handles w') = m(v := None)"
      by (auto simp: m_def)
    have 1: "\<forall>a h. hubs w' a = Some h \<longrightarrow> hub_inv h"
      using hubs_ok by (auto simp: h' Subscription_destroy_at hub_inv_unsubscribe split: if_splits)
    have 2: "\<forall>k s a h. map_of (handles w') k = Some s \<and> event s = Some a \<and> hubs w' a = Some h \<longrightarrow>
        id_sub s < nextId h"
      using below
      by (auto simp: h' m' Subscription_destroy_at unsubscribe_nextId split: if_splits)
    have 3: "\<forall>k k' s s' a. map_of (handles w') k = Some s \<and> map_of (handles w') k' = Some s' \<and>
        event s = Some a \<and> event s' = Some a \<and> id_sub s = id_sub s' \<longrightarrow> k = k'"
      using uniq by (auto simp: m' split: if_splits)
    show ?thesis
      unfolding world_inv_def by (rule conjI [OF names' conjI [OF 1 conjI [OF 2 3]]])
  next
    case (MoveConstruct v u)
    from step_MoveConstruct [of v u w w'] MoveConstruct st
    obtain other where o: "m u = Some other"
      and h': "hubs w' = hubs w"
      and m': "map_of (handles w') = m(u \<mapsto> moved_from, v \<mapsto> moved_to other)"
      by (auto simp: m_def)
    have 1: "\<forall>a h. hubs w' a = Some h \<longrightarrow> hub_inv h"
      using hubs_ok by (simp add: h')
    have 2: "\<forall>k s a h. map_of (handles w') k = Some s \<and> event s = Some a \<and> hubs w' a = Some h \<longrightarrow>
        id_sub s < nextId h"
    proof (intro allI impI, elim conjE)
      fix k s a h
      assume ka: "map_of (handles w') k = Some s" and kb: "event s = Some a"
        and kc: "hubs w' a = Some h"
      from kc h' have kc': "hubs w a = Some h" by simp
      show "id_sub s < nextId h"
        by (rule move_keeps_below [where m = m and H = "hubs w", OF below o m' ka kb kc'])
    qed
    have 3: "\<forall>k k' s s' a. map_of (handles w') k = Some s \<and> map_of (handles w') k' = Some s' \<and>
        event s = Some a \<and> event s' = Some a \<and> id_sub s = id_sub s' \<longrightarrow> k = k'"
    proof (intro allI impI, elim conjE)
      fix k k' s s' a
      assume ka: "map_of (handles w') k = Some s" and kb: "map_of (handles w') k' = Some s'"
        and kc: "event s = Some a" and kd: "event s' = Some a" and ke: "id_sub s = id_sub s'"
      show "k = k'"
        by (rule move_keeps_unique [where m = m, OF uniq o m' ka kc kb kd ke])
    qed
    show ?thesis
      unfolding world_inv_def by (rule conjI [OF names' conjI [OF 1 conjI [OF 2 3]]])
  next
    case (MoveAssign v u)
    show ?thesis
    proof (cases "v = u")
      case True
      with MoveAssign st have "w' = w" by (auto split: option.splits)
      with inv show ?thesis by simp
    next
      case False
      from step_MoveAssign [of v u w w'] MoveAssign st False
      obtain other where o: "m u = Some other"
        and h': "hubs w' = hubs w"
        and m': "map_of (handles w') = m(u \<mapsto> moved_from, v \<mapsto> moved_to other)"
        by (auto simp: m_def)
      have 1: "\<forall>a h. hubs w' a = Some h \<longrightarrow> hub_inv h"
        using hubs_ok by (simp add: h')
      have 2: "\<forall>k s a h. map_of (handles w') k = Some s \<and> event s = Some a \<and> hubs w' a = Some h \<longrightarrow>
          id_sub s < nextId h"
      proof (intro allI impI, elim conjE)
        fix k s a h
        assume ka: "map_of (handles w') k = Some s" and kb: "event s = Some a"
          and kc: "hubs w' a = Some h"
        from kc h' have kc': "hubs w a = Some h" by simp
        show "id_sub s < nextId h"
          by (rule move_keeps_below [where m = m and H = "hubs w", OF below o m' ka kb kc'])
      qed
      have 3: "\<forall>k k' s s' a. map_of (handles w') k = Some s \<and> map_of (handles w') k' = Some s' \<and>
          event s = Some a \<and> event s' = Some a \<and> id_sub s = id_sub s' \<longrightarrow> k = k'"
      proof (intro allI impI, elim conjE)
        fix k k' s s' a
        assume ka: "map_of (handles w') k = Some s" and kb: "map_of (handles w') k' = Some s'"
          and kc: "event s = Some a" and kd: "event s' = Some a" and ke: "id_sub s = id_sub s'"
        show "k = k'"
          by (rule move_keeps_unique [where m = m, OF uniq o m' ka kc kb kd ke])
      qed
      show ?thesis
        unfolding world_inv_def by (rule conjI [OF names' conjI [OF 1 conjI [OF 2 3]]])
    qed
  next
    case (DestroyHub b)
    with st have w': "w' = w\<lparr>hubs := (hubs w)(b := None)\<rparr>"
      by (auto split: option.splits)
    have 1: "\<forall>a h. hubs w' a = Some h \<longrightarrow> hub_inv h"
      using hubs_ok by (auto simp: w' split: if_splits)
    have 2: "\<forall>k s a h. map_of (handles w') k = Some s \<and> event s = Some a \<and> hubs w' a = Some h \<longrightarrow>
        id_sub s < nextId h"
      using below by (auto simp: w' m_def split: if_splits)
    have 3: "\<forall>k k' s s' a. map_of (handles w') k = Some s \<and> map_of (handles w') k' = Some s' \<and>
        event s = Some a \<and> event s' = Some a \<and> id_sub s = id_sub s' \<longrightarrow> k = k'"
      using uniq by (auto simp: w' m_def)
    show ?thesis
      unfolding world_inv_def by (rule conjI [OF names' conjI [OF 1 conjI [OF 2 3]]])
  qed
qed

lemma world_inv_run: "world_inv w \<Longrightarrow> run ps w = Some w' \<Longrightarrow> world_inv w'"
proof (induction ps arbitrary: w)
  case Nil
  then show ?case by simp
next
  case (Cons p ps)
  from Cons.prems(2) obtain w1 where w1: "step p w = Some w1" "run ps w1 = Some w'"
    by (auto split: option.splits)
  from Cons.prems(1) w1(1) have "world_inv w1" by (rule world_inv_step)
  then show ?case using w1(2) by (rule Cons.IH)
qed

lemma world_inv_owner:
  assumes "world_inv w" and "map_of (handles w) v = Some s" and "event s = Some a"
  shows "set (owners a (id_sub s) w) = {v}"
proof -
  note parts = assms(1) [unfolded world_inv_def]
  note names = parts [THEN conjunct1]
  note uniq = parts [THEN conjunct2, THEN conjunct2, THEN conjunct2]
  have only: "k = v" if "map_of (handles w) k = Some t" "event t = Some a" "id_sub t = id_sub s"
    for k t
    by (rule uniq [rule_format, of k t v s a]) (simp add: that assms)
  show ?thesis
  proof (intro set_eqI iffI)
    fix k
    assume "k \<in> set (owners a (id_sub s) w)"
    then obtain t where "map_of (handles w) k = Some t" "event t = Some a" "id_sub t = id_sub s"
      unfolding owners_map_of [OF names] by blast
    then have "k = v" by (rule only)
    then show "k \<in> {v}" by simp
  next
    fix k
    assume "k \<in> {v}"
    then have "k = v" by simp
    with assms(2,3) show "k \<in> set (owners a (id_sub s) w)"
      unfolding owners_map_of [OF names] by blast
  qed
qed

lemmas eval_defs =
  CEventSafe_trigger_def CEventSafe_unsubscribe_def CEventSafe_subscribe_def
  activeEntries_def cleanup_def Subscription_destroy_def moved_to_def moved_from_def
  new_entry_def INT_MAX_def Let_def

text \<open>
  Claim C4. In a world with distinct handle names, let the handle \<open>v1\<close> be the one
  owner of an active entry \<open>e\<close> of a live hub that satisfies \<open>hub_inv\<close>, and let
  \<open>v1\<close> be moved into another handle \<open>v2\<close>, by move construction or by move
  assignment. The move leaves every hub as it is, so it does not unsubscribe; the
  source holds an empty reference and the id \<open>-1\<close>; \<open>v2\<close> is now the one owner, so
  the statement applies again to a further move; \<^verbatim>\<open>trigger\<close> still has \<open>e\<close> in
  its snapshot and calls its callback; destroying the moved-from \<open>v1\<close> changes no
  hub; destroying \<open>v2\<close> unsubscribes \<open>e\<close> and leaves no owner, and the next
  \<^verbatim>\<open>trigger\<close> calls the other active entries only. No sequence of moves changes a
  hub. (The assignment of a handle to itself is stopped by the test
  \<^verbatim>\<open>this != &other\<close> and changes nothing.)
\<close>

theorem move_transfers_ownership:
  assumes names: "distinct (map fst (handles w))"
    and hub: "hubs w a = Some h" "hub_inv h"
    and e: "e \<in> set (callbacks h)" "active e"
    and own: "set (owners a (id_entry e) w) = {v1}"
    and mv: "p = MoveConstruct v2 v1 \<or> p = MoveAssign v2 v1" "v2 \<noteq> v1"
    and st: "step p w = Some w1"
  shows "hubs w1 = hubs w \<and>
         map_of (handles w1) v1 = Some moved_from \<and>
         distinct (map fst (handles w1)) \<and>
         set (owners a (id_entry e) w1) = {v2} \<and>
         e \<in> set (activeEntries h) \<and>
         (\<exists>w2. step (Destroy v1) w1 = Some w2 \<and> hubs w2 = hubs w \<and>
            set (owners a (id_entry e) w2) = {v2}) \<and>
         (\<exists>w3. step (Destroy v2) w1 = Some w3 \<and>
            hubs w3 a = Some (CEventSafe_unsubscribe (id_entry e) h) \<and>
            owners a (id_entry e) w3 = []) \<and>
         activeEntries (CEventSafe_unsubscribe (id_entry e) h) =
           filter (\<lambda>e'. id_entry e' \<noteq> id_entry e) (activeEntries h) \<and>
         ((\<forall>e' \<in> set (activeEntries h). callback e' \<noteq> None) \<longrightarrow>
            (the (callback e), x) \<in> set (fst (snd (CEventSafe_trigger x h))) \<and>
            snd (CEventSafe_trigger x (CEventSafe_unsubscribe (id_entry e) h)) =
              (map (\<lambda>e'. (the (callback e'), x))
                 (filter (\<lambda>e'. id_entry e' \<noteq> id_entry e) (activeEntries h)), None)) \<and>
         (\<forall>ms w'. list_all is_move ms \<and> run ms w = Some w' \<longrightarrow> hubs w' = hubs w) \<and>
         step (MoveAssign v1 v1) w = Some w"
proof -
  define i where "i = id_entry e"
  define m where "m = map_of (handles w)"
  note own_w = owners_map_of [OF names, of a i]
  from own have "v1 \<in> set (owners a i w)" by (simp add: i_def)
  then obtain s where s: "m v1 = Some s" "event s = Some a" "id_sub s = i"
    by (auto simp: own_w m_def)
  have only: "k = v1" if "m k = Some s'" "event s' = Some a" "id_sub s' = i" for k s'
  proof -
    from that have "k \<in> set (owners a i w)" by (auto simp: own_w m_def)
    with own show ?thesis by (simp add: i_def)
  qed
  have moved: "hubs w1 = hubs w \<and> map_of (handles w1) = m(v1 \<mapsto> moved_from, v2 \<mapsto> moved_to s)"
  proof (cases "p = MoveConstruct v2 v1")
    case True
    with st step_MoveConstruct [of v2 v1 w w1] s(1) show ?thesis
      by (auto simp: m_def)
  next
    case False
    with mv(1) have "p = MoveAssign v2 v1" by simp
    with st mv(2) step_MoveAssign [of v2 v1 w w1] s(1) show ?thesis
      by (auto simp: m_def)
  qed
  then have hubs1: "hubs w1 = hubs w"
    and m1: "map_of (handles w1) = m(v1 \<mapsto> moved_from, v2 \<mapsto> moved_to s)"
    by simp_all
  have at_v1: "map_of (handles w1) v1 = Some moved_from"
    using mv(2) by (simp add: m1)
  have at_v2: "map_of (handles w1) v2 = Some (moved_to s)"
    by (simp add: m1)
  have names1: "distinct (map fst (handles w1))"
    using names st by (rule step_distinct)
  have own1: "set (owners a i w1) = {v2}"
  proof -
    have "v2 \<in> set (owners a i w1)"
      using s by (simp add: owners_map_of [OF names1] m1 moved_to_def)
    moreover have "k = v2" if "k \<in> set (owners a i w1)" for k
    proof (rule ccontr)
      assume "k \<noteq> v2"
      with that obtain s' where "(m(v1 \<mapsto> moved_from)) k = Some s'"
        "event s' = Some a" "id_sub s' = i"
        by (auto simp: owners_map_of [OF names1] m1)
      then show False
        using only [of k s'] by (auto simp: moved_from_def split: if_splits)
    qed
    ultimately show ?thesis by blast
  qed
  have snap: "e \<in> set (activeEntries h)"
    using e by (simp add: activeEntries_eq)
  from step_Destroy [OF at_v1] obtain w2 where w2: "step (Destroy v1) w1 = Some w2"
    "hubs w2 = Subscription_destroy moved_from (hubs w1)"
    "map_of (handles w2) = (map_of (handles w1))(v1 := None)"
    "distinct (map fst (handles w2))"
    using names1 by blast
  have own2: "set (owners a i w2) = {v2}"
  proof -
    have "set (owners a i w2) = set (owners a i w1) - {v1}"
      by (auto simp: owners_map_of [OF w2(4)] owners_map_of [OF names1] w2(3))
    with own1 mv(2) show ?thesis by auto
  qed
  have drop_source: "\<exists>w2. step (Destroy v1) w1 = Some w2 \<and> hubs w2 = hubs w \<and>
            set (owners a (id_entry e) w2) = {v2}"
    using w2(1) w2(2) own2 hubs1 by (auto simp: Subscription_destroy_moved_from i_def)
  from step_Destroy [OF at_v2] obtain w3 where w3: "step (Destroy v2) w1 = Some w3"
    "hubs w3 = Subscription_destroy (moved_to s) (hubs w1)"
    "map_of (handles w3) = (map_of (handles w1))(v2 := None)"
    "distinct (map fst (handles w3))"
    using names1 by blast
  have "hubs w3 = (hubs w)(a \<mapsto> CEventSafe_unsubscribe i h)"
    using s hub(1) by (simp add: w3(2) hubs1 Subscription_destroy_def moved_to_def)
  then have hub3: "hubs w3 a = Some (CEventSafe_unsubscribe i h)"
    by simp
  have own3: "owners a i w3 = []"
  proof -
    have "set (owners a i w3) = set (owners a i w1) - {v2}"
      by (auto simp: owners_map_of [OF w3(4)] owners_map_of [OF names1] w3(3))
    with own1 show ?thesis by simp
  qed
  have drop_owner: "\<exists>w3. step (Destroy v2) w1 = Some w3 \<and>
            hubs w3 a = Some (CEventSafe_unsubscribe (id_entry e) h) \<and>
            owners a (id_entry e) w3 = []"
    using w3(1) hub3 own3 by (auto simp: i_def)
  from hub(2) have d: "distinct (map id_entry (callbacks h))"
    by (simp add: hub_inv_def)
  have act: "activeEntries (CEventSafe_unsubscribe (id_entry e) h) =
           filter (\<lambda>e'. id_entry e' \<noteq> id_entry e) (activeEntries h)"
    by (rule activeEntries_unsubscribe [OF d])
  have calls: "(\<forall>e' \<in> set (activeEntries h). callback e' \<noteq> None) \<longrightarrow>
            (the (callback e), x) \<in> set (fst (snd (CEventSafe_trigger x h))) \<and>
            snd (CEventSafe_trigger x (CEventSafe_unsubscribe (id_entry e) h)) =
              (map (\<lambda>e'. (the (callback e'), x))
                 (filter (\<lambda>e'. id_entry e' \<noteq> id_entry e) (activeEntries h)), None)"
  proof
    assume ne: "\<forall>e' \<in> set (activeEntries h). callback e' \<noteq> None"
    then have "\<forall>e' \<in> set (filter (\<lambda>e'. id_entry e' \<noteq> id_entry e) (activeEntries h)).
        callback e' \<noteq> None"
      by simp
    then have "snd (CEventSafe_trigger x (CEventSafe_unsubscribe (id_entry e) h)) =
              (map (\<lambda>e'. (the (callback e'), x))
                 (filter (\<lambda>e'. id_entry e' \<noteq> id_entry e) (activeEntries h)), None)"
      by (simp add: CEventSafe_trigger_def act invoke_each_entries)
    with trigger_calls_entry [OF snap ne, of x]
    show "(the (callback e), x) \<in> set (fst (snd (CEventSafe_trigger x h))) \<and>
            snd (CEventSafe_trigger x (CEventSafe_unsubscribe (id_entry e) h)) =
              (map (\<lambda>e'. (the (callback e'), x))
                 (filter (\<lambda>e'. id_entry e' \<noteq> id_entry e) (activeEntries h)), None)"
      by (rule conjI)
  qed
  have chain: "\<forall>ms w'. list_all is_move ms \<and> run ms w = Some w' \<longrightarrow> hubs w' = hubs w"
    using moves_keep_hubs by blast
  have own1': "set (owners a (id_entry e) w1) = {v2}"
    using own1 by (simp add: i_def)
  have self: "step (MoveAssign v1 v1) w = Some w"
    using s(1) by (simp add: m_def)
  show ?thesis
    by (rule conjI [OF hubs1 conjI [OF at_v1 conjI [OF names1 conjI [OF own1' conjI [OF snap
          conjI [OF drop_source conjI [OF drop_owner conjI [OF act conjI [OF calls
          conjI [OF chain self]]]]]]]]]])
qed

theorem move_transfers_ownership_witness:
  "step (MoveConstruct 2 0)
     \<lparr>hubs = [0 \<mapsto> \<lparr>needsCleanup = False, nextId = 2,
         callbacks = [\<lparr>id_entry = 0, callback = Some (10 :: nat), active = True\<rparr>,
                      \<lparr>id_entry = 1, callback = Some 11, active = True\<rparr>]\<rparr>],
      handles = [(0, \<lparr>event = Some 0, id_sub = 0\<rparr>), (1, \<lparr>event = Some 0, id_sub = 1\<rparr>)]\<rparr> =
   Some \<lparr>hubs = [0 \<mapsto> \<lparr>needsCleanup = False, nextId = 2,
         callbacks = [\<lparr>id_entry = 0, callback = Some 10, active = True\<rparr>,
                      \<lparr>id_entry = 1, callback = Some 11, active = True\<rparr>]\<rparr>],
      handles = [(2, \<lparr>event = Some 0, id_sub = 0\<rparr>), (0, \<lparr>event = None, id_sub = - 1\<rparr>),
                 (1, \<lparr>event = Some 0, id_sub = 1\<rparr>)]\<rparr> \<and>
   step (MoveAssign 1 0)
     \<lparr>hubs = [0 \<mapsto> \<lparr>needsCleanup = False, nextId = 2,
         callbacks = [\<lparr>id_entry = 0, callback = Some (10 :: nat), active = True\<rparr>,
                      \<lparr>id_entry = 1, callback = Some 11, active = True\<rparr>]\<rparr>],
      handles = [(0, \<lparr>event = Some 0, id_sub = 0\<rparr>), (1, \<lparr>event = Some 0, id_sub = 1\<rparr>)]\<rparr> =
   Some \<lparr>hubs = [0 \<mapsto> \<lparr>needsCleanup = False, nextId = 2,
         callbacks = [\<lparr>id_entry = 0, callback = Some 10, active = True\<rparr>,
                      \<lparr>id_entry = 1, callback = Some 11, active = True\<rparr>]\<rparr>],
      handles = [(0, \<lparr>event = None, id_sub = - 1\<rparr>), (1, \<lparr>event = Some 0, id_sub = 0\<rparr>)]\<rparr> \<and>
   (10, 5 :: int) \<in> set (fst (snd (CEventSafe_trigger 5 \<lparr>needsCleanup = False, nextId = 2,
         callbacks = [\<lparr>id_entry = 0, callback = Some (10 :: nat), active = True\<rparr>,
                      \<lparr>id_entry = 1, callback = Some 11, active = True\<rparr>]\<rparr>))) \<and>
   snd (CEventSafe_trigger (5 :: int) (CEventSafe_unsubscribe 0 \<lparr>needsCleanup = False, nextId = 2,
         callbacks = [\<lparr>id_entry = 0, callback = Some (10 :: nat), active = True\<rparr>,
                      \<lparr>id_entry = 1, callback = Some 11, active = True\<rparr>]\<rparr>)) =
     ([(11, 5)], None) \<and>
   step (Destroy 0)
     \<lparr>hubs = [0 \<mapsto> \<lparr>needsCleanup = False, nextId = 2,
         callbacks = [\<lparr>id_entry = 0, callback = Some (10 :: nat), active = True\<rparr>,
                      \<lparr>id_entry = 1, callback = Some 11, active = True\<rparr>]\<rparr>],
      handles = [(2, \<lparr>event = Some 0, id_sub = 0\<rparr>), (0, \<lparr>event = None, id_sub = - 1\<rparr>),
                 (1, \<lparr>event = Some 0, id_sub = 1\<rparr>)]\<rparr> =
   Some \<lparr>hubs = [0 \<mapsto> \<lparr>needsCleanup = False, nextId = 2,
         callbacks = [\<lparr>id_entry = 0, callback = Some 10, active = True\<rparr>,
                      \<lparr>id_entry = 1, callback = Some 11, active = True\<rparr>]\<rparr>],
      handles = [(2, \<lparr>event = Some 0, id_sub = 0\<rparr>), (1, \<lparr>event = Some 0, id_sub = 1\<rparr>)]\<rparr> \<and>
   step (Destroy 2)
     \<lparr>hubs = [0 \<mapsto> \<lparr>needsCleanup = False, nextId = 2,
         callbacks = [\<lparr>id_entry = 0, callback = Some (10 :: nat), active = True\<rparr>,
                      \<lparr>id_entry = 1, callback = Some 11, active = True\<rparr>]\<rparr>],
      handles = [(2, \<lparr>event = Some 0, id_sub = 0\<rparr>), (0, \<lparr>event = None, id_sub = - 1\<rparr>),
                 (1, \<lparr>event = Some 0, id_sub = 1\<rparr>)]\<rparr> =
   Some \<lparr>hubs = [0 \<mapsto> \<lparr>needsCleanup = True, nextId = 2,
         callbacks = [\<lparr>id_entry = 0, callback = Some 10, active = False\<rparr>,
                      \<lparr>id_entry = 1, callback = Some 11, active = True\<rparr>]\<rparr>],
      handles = [(0, \<lparr>event = None, id_sub = - 1\<rparr>), (1, \<lparr>event = Some 0, id_sub = 1\<rparr>)]\<rparr>"
proof -
  define E0 :: "nat CallbackEntry" where "E0 = \<lparr>id_entry = 0, callback = Some 10, active = True\<rparr>"
  define E1 :: "nat CallbackEntry" where "E1 = \<lparr>id_entry = 1, callback = Some 11, active = True\<rparr>"
  define H :: "nat CEvent" where "H = \<lparr>needsCleanup = False, nextId = 2, callbacks = [E0, E1]\<rparr>"
  define S0 where "S0 = \<lparr>event = Some (0 :: nat), id_sub = 0\<rparr>"
  define S1 where "S1 = \<lparr>event = Some (0 :: nat), id_sub = 1\<rparr>"
  define W :: "nat world" where "W = \<lparr>hubs = [0 \<mapsto> H], handles = [(0, S0), (1, S1)]\<rparr>"
  define W1 :: "nat world" where
    "W1 = \<lparr>hubs = [0 \<mapsto> H], handles = [(2, S0), (0, \<lparr>event = None, id_sub = - 1\<rparr>), (1, S1)]\<rparr>"
  define W1' :: "nat world" where
    "W1' = \<lparr>hubs = [0 \<mapsto> H], handles = [(0, \<lparr>event = None, id_sub = - 1\<rparr>), (1, S0)]\<rparr>"
  have names: "distinct (map fst (handles W))"
    by (simp add: W_def)
  have hub: "hubs W 0 = Some H"
    by (simp add: W_def)
  have inv: "hub_inv H"
    by (simp add: hub_inv_def H_def E0_def E1_def)
  have e: "E0 \<in> set (callbacks H)" "active E0"
    by (simp_all add: H_def E0_def)
  have own: "set (owners 0 (id_entry E0) W) = {0}"
    by (simp add: owners_def W_def E0_def S0_def S1_def)
  have ne: "\<forall>e' \<in> set (activeEntries H). callback e' \<noteq> None"
    by (simp add: H_def E0_def E1_def activeEntries_def cleanup_def)
  have ctor: "step (MoveConstruct 2 0) W = Some W1"
    by (simp add: W_def W1_def S0_def S1_def moved_to_def moved_from_def)
  have asg: "step (MoveAssign 1 0) W = Some W1'"
    by (simp add: W_def W1'_def S0_def S1_def moved_to_def moved_from_def)
  have mv: "MoveConstruct 2 0 = MoveConstruct 2 0 \<or> MoveConstruct 2 0 = MoveAssign 2 0"
    "(2 :: nat) \<noteq> 0"
    by simp_all
  have mv': "MoveAssign 1 0 = MoveConstruct 1 0 \<or> MoveAssign 1 0 = MoveAssign 1 0"
    "(1 :: nat) \<noteq> 0"
    by simp_all
  note at_ctor = move_transfers_ownership [OF names hub inv e own mv ctor, of "5 :: int"]
  note at_asg = move_transfers_ownership [OF names hub inv e own mv' asg, of "5 :: int"]
  from at_ctor ne
  have r1: "(the (callback E0), 5 :: int) \<in> set (fst (snd (CEventSafe_trigger 5 H)))"
    by blast
  from at_asg ne
  have r2: "snd (CEventSafe_trigger (5 :: int) (CEventSafe_unsubscribe (id_entry E0) H)) =
      (map (\<lambda>e'. (the (callback e'), 5))
         (filter (\<lambda>e'. id_entry e' \<noteq> id_entry E0) (activeEntries H)), None)"
    by blast
  then have r2': "snd (CEventSafe_trigger (5 :: int) (CEventSafe_unsubscribe 0 H)) = ([(11, 5)], None)"
    by (simp add: E0_def activeEntries_def cleanup_def H_def E1_def)
  have c: "the (callback E0) = 10"
    by (simp add: E0_def)
  have d0: "step (Destroy 0) W1 = Some \<lparr>hubs = [0 \<mapsto> H], handles = [(2, S0), (1, S1)]\<rparr>"
    by (simp add: W1_def Subscription_destroy_def)
  have d2: "step (Destroy 2) W1 =
      Some \<lparr>hubs = [0 \<mapsto> \<lparr>needsCleanup = True, nextId = 2,
               callbacks = [\<lparr>id_entry = 0, callback = Some 10, active = False\<rparr>, E1]\<rparr>],
            handles = [(0, \<lparr>event = None, id_sub = - 1\<rparr>), (1, S1)]\<rparr>"
    by (simp add: W1_def S0_def H_def E0_def E1_def Subscription_destroy_def
        CEventSafe_unsubscribe_def)
  from ctor asg r1 r2' d0 d2 show ?thesis
    unfolding c unfolding W_def W1_def W1'_def H_def E0_def E1_def S0_def S1_def
    by (intro conjI)
qed

text \<open>
  Claim C5. On a live hub that satisfies \<open>hub_inv\<close>, \<^verbatim>\<open>subscribe\<close> returns a
  handle \<open>v\<close> for a new active entry with the id \<open>nextId h\<close>. Whatever the program
  does next without naming \<open>v\<close> and without destroying the hub, once \<open>v\<close> is
  destroyed the snapshot of the next \<^verbatim>\<open>trigger\<close> holds no entry with that id, so
  its calls are those of the other active entries; when the handle is dropped at
  once they are the calls \<^verbatim>\<open>trigger\<close> would have made before the \<^verbatim>\<open>subscribe\<close>.
\<close>

theorem dropped_handle_is_not_invoked:
  assumes hub: "hubs w a = Some h" "hub_inv h"
    and sub: "step (Subscribe a cb v) w = Some w1"
    and between: "run ps w1 = Some w2"
      "\<forall>p \<in> set ps. \<not> uses_handle v p \<and> p \<noteq> DestroyHub a"
    and drop: "step (Destroy v) w2 = Some w3"
  shows "map_of (handles w1) v = Some \<lparr>event = Some a, id_sub = nextId h\<rparr> \<and>
         (\<exists>h1. hubs w1 a = Some h1 \<and> new_entry (nextId h) cb \<in> set (activeEntries h1)) \<and>
         (\<exists>h3. hubs w3 a = Some h3 \<and>
            (\<forall>e \<in> set (activeEntries h3). id_entry e \<noteq> nextId h) \<and>
            snd (CEventSafe_trigger x h3) =
              invoke_each
                (map callback (filter (\<lambda>e. id_entry e \<noteq> nextId h) (activeEntries h3))) x \<and>
            (ps = [] \<longrightarrow> snd (CEventSafe_trigger x h3) = snd (CEventSafe_trigger x h)))"
proof -
  define s where "s = \<lparr>event = Some a, id_sub = nextId h\<rparr>"
  define h1 where "h1 = h\<lparr>nextId := nextId h + 1,
                         callbacks := callbacks h @ [new_entry (nextId h) cb]\<rparr>"
  from sub hub(1) have sb: "CEventSafe_subscribe cb h = Some (h1, nextId h)"
    and w1: "w1 = w\<lparr>hubs := (hubs w)(a \<mapsto> h1), handles := (v, s) # handles w\<rparr>"
    by (auto simp: s_def h1_def CEventSafe_subscribe_def Let_def split: option.splits if_splits)
  have v1: "map_of (handles w1) v = Some s"
    by (simp add: w1)
  have hub1: "hubs w1 a = Some h1"
    by (simp add: w1)
  have inv1: "hub_inv h1"
    using hub(2) sb by (rule hub_inv_subscribe)
  have reg: "new_entry (nextId h) cb \<in> set (activeEntries h1)"
    by (simp add: activeEntries_subscribe [OF sb])
  from held_run [OF between(1) hub1 inv1 v1 between(2)]
  obtain h2 where h2: "hubs w2 a = Some h2" "hub_inv h2" "map_of (handles w2) v = Some s"
    by blast
  from step_Destroy [OF h2(3)] drop
  have "hubs w3 = Subscription_destroy s (hubs w2)" by auto
  with h2(1) have hub3: "hubs w3 a = Some (CEventSafe_unsubscribe (nextId h) h2)"
    by (simp add: Subscription_destroy_at s_def)
  have none: "\<forall>e \<in> set (activeEntries (CEventSafe_unsubscribe (nextId h) h2)).
      id_entry e \<noteq> nextId h"
    using h2(2) by (rule no_entry_after_unsubscribe)
  then have same: "filter (\<lambda>e. id_entry e \<noteq> nextId h)
      (activeEntries (CEventSafe_unsubscribe (nextId h) h2)) =
      activeEntries (CEventSafe_unsubscribe (nextId h) h2)"
    by (simp add: filter_id_conv)
  have calls: "snd (CEventSafe_trigger x (CEventSafe_unsubscribe (nextId h) h2)) =
      invoke_each (map callback (filter (\<lambda>e. id_entry e \<noteq> nextId h)
        (activeEntries (CEventSafe_unsubscribe (nextId h) h2)))) x"
    by (simp add: same CEventSafe_trigger_def)
  have at_once: "ps = [] \<longrightarrow>
      snd (CEventSafe_trigger x (CEventSafe_unsubscribe (nextId h) h2)) =
      snd (CEventSafe_trigger x h)"
  proof
    assume "ps = []"
    with between(1) hub1 h2(1) have eq: "h2 = h1" by simp
    from inv1 have d: "distinct (map id_entry (callbacks h1))"
      by (simp add: hub_inv_def)
    from hub(2) have "\<forall>e \<in> set (callbacks h). id_entry e \<noteq> nextId h"
      by (auto simp: hub_inv_def)
    then have "\<forall>e \<in> set (activeEntries h). id_entry e \<noteq> nextId h"
      by (simp add: activeEntries_eq)
    then have "filter (\<lambda>e. id_entry e \<noteq> nextId h) (activeEntries h) = activeEntries h"
      by (simp only: filter_id_conv)
    then have "activeEntries (CEventSafe_unsubscribe (nextId h) h1) = activeEntries h"
      by (simp add: activeEntries_unsubscribe [OF d] activeEntries_subscribe [OF sb] new_entry_def)
    with eq show "snd (CEventSafe_trigger x (CEventSafe_unsubscribe (nextId h) h2)) =
      snd (CEventSafe_trigger x h)"
      by (simp add: CEventSafe_trigger_def)
  qed
  have first: "map_of (handles w1) v = Some \<lparr>event = Some a, id_sub = nextId h\<rparr>"
    using v1 by (simp add: s_def)
  have second: "\<exists>h1. hubs w1 a = Some h1 \<and> new_entry (nextId h) cb \<in> set (activeEntries h1)"
    using hub1 reg by blast
  have third: "\<exists>h3. hubs w3 a = Some h3 \<and>
            (\<forall>e \<in> set (activeEntries h3). id_entry e \<noteq> nextId h) \<and>
            snd (CEventSafe_trigger x h3) =
              invoke_each
                (map callback (filter (\<lambda>e. id_entry e \<noteq> nextId h) (activeEntries h3))) x \<and>
            (ps = [] \<longrightarrow> snd (CEventSafe_trigger x h3) = snd (CEventSafe_trigger x h))"
    using hub3 none calls at_once by blast
  show ?thesis
    by (rule conjI [OF first conjI [OF second third]])
qed

theorem dropped_handle_witness:
  "run [Subscribe 0 (Some (11 :: nat)) 1, Trigger 0 (5 :: int), Subscribe 0 (Some 12) 2, Destroy 1]
     \<lparr>hubs = [0 \<mapsto> \<lparr>needsCleanup = False, nextId = 1,
         callbacks = [\<lparr>id_entry = 0, callback = Some 10, active = True\<rparr>]\<rparr>],
      handles = [(0, \<lparr>event = Some 0, id_sub = 0\<rparr>)]\<rparr> =
   Some \<lparr>hubs = [0 \<mapsto> \<lparr>needsCleanup = True, nextId = 3,
         callbacks = [\<lparr>id_entry = 0, callback = Some 10, active = True\<rparr>,
                      \<lparr>id_entry = 1, callback = Some 11, active = False\<rparr>,
                      \<lparr>id_entry = 2, callback = Some 12, active = True\<rparr>]\<rparr>],
      handles = [(2, \<lparr>event = Some 0, id_sub = 2\<rparr>), (0, \<lparr>event = Some 0, id_sub = 0\<rparr>)]\<rparr> \<and>
   snd (CEventSafe_trigger (6 :: int) \<lparr>needsCleanup = True, nextId = 3,
         callbacks = [\<lparr>id_entry = 0, callback = Some (10 :: nat), active = True\<rparr>,
                      \<lparr>id_entry = 1, callback = Some 11, active = False\<rparr>,
                      \<lparr>id_entry = 2, callback = Some 12, active = True\<rparr>]\<rparr>) =
     ([(10, 6), (12, 6)], None) \<and>
   run [Subscribe 0 (Some (11 :: nat)) 1, Destroy 1 :: (nat, int) stmt]
     \<lparr>hubs = [0 \<mapsto> \<lparr>needsCleanup = False, nextId = 1,
         callbacks = [\<lparr>id_entry = 0, callback = Some 10, active = True\<rparr>]\<rparr>],
      handles = [(0, \<lparr>event = Some 0, id_sub = 0\<rparr>)]\<rparr> =
   Some \<lparr>hubs = [0 \<mapsto> \<lparr>needsCleanup = True, nextId = 2,
         callbacks = [\<lparr>id_entry = 0, callback = Some 10, active = True\<rparr>,
                      \<lparr>id_entry = 1, callback = Some 11, active = False\<rparr>]\<rparr>],
      handles = [(0, \<lparr>event = Some 0, id_sub = 0\<rparr>)]\<rparr> \<and>
   snd (CEventSafe_trigger (6 :: int) \<lparr>needsCleanup = True, nextId = 2,
         callbacks = [\<lparr>id_entry = 0, callback = Some (10 :: nat), active = True\<rparr>,
                      \<lparr>id_entry = 1, callback = Some 11, active = False\<rparr>]\<rparr>) =
     ([(10, 6)], None)"
proof -
  define E0 :: "nat CallbackEntry" where "E0 = \<lparr>id_entry = 0, callback = Some 10, active = True\<rparr>"
  define E1 :: "nat CallbackEntry" where "E1 = \<lparr>id_entry = 1, callback = Some 11, active = True\<rparr>"
  define E1' :: "nat CallbackEntry" where "E1' = \<lparr>id_entry = 1, callback = Some 11, active = False\<rparr>"
  define E2 :: "nat CallbackEntry" where "E2 = \<lparr>id_entry = 2, callback = Some 12, active = True\<rparr>"
  define S0 where "S0 = \<lparr>event = Some (0 :: nat), id_sub = 0\<rparr>"
  define S1 where "S1 = \<lparr>event = Some (0 :: nat), id_sub = 1\<rparr>"
  define S2 where "S2 = \<lparr>event = Some (0 :: nat), id_sub = 2\<rparr>"
  define H :: "nat CEvent" where "H = \<lparr>needsCleanup = False, nextId = 1, callbacks = [E0]\<rparr>"
  define H3 :: "nat CEvent" where "H3 = \<lparr>needsCleanup = True, nextId = 3, callbacks = [E0, E1', E2]\<rparr>"
  define H3' :: "nat CEvent" where "H3' = \<lparr>needsCleanup = True, nextId = 2, callbacks = [E0, E1']\<rparr>"
  define W :: "nat world" where "W = \<lparr>hubs = [0 \<mapsto> H], handles = [(0, S0)]\<rparr>"
  define W1 :: "nat world" where
    "W1 = \<lparr>hubs = [0 \<mapsto> \<lparr>needsCleanup = False, nextId = 2, callbacks = [E0, E1]\<rparr>],
           handles = [(1, S1), (0, S0)]\<rparr>"
  define W2 :: "nat world" where
    "W2 = \<lparr>hubs = [0 \<mapsto> \<lparr>needsCleanup = False, nextId = 3, callbacks = [E0, E1, E2]\<rparr>],
           handles = [(2, S2), (1, S1), (0, S0)]\<rparr>"
  define W3 :: "nat world" where "W3 = \<lparr>hubs = [0 \<mapsto> H3], handles = [(2, S2), (0, S0)]\<rparr>"
  define W3' :: "nat world" where "W3' = \<lparr>hubs = [0 \<mapsto> H3'], handles = [(0, S0)]\<rparr>"
  define ps :: "(nat, int) stmt list" where "ps = [Trigger 0 5, Subscribe 0 (Some 12) 2]"
  note defs = W_def W1_def W2_def W3_def W3'_def H_def H3_def H3'_def
    E0_def E1_def E1'_def E2_def S0_def S1_def S2_def
  have hub: "hubs W 0 = Some H"
    by (simp add: W_def)
  have inv: "hub_inv H"
    by (simp add: hub_inv_def H_def E0_def)
  have sub: "step (Subscribe 0 (Some 11) 1) W = Some W1"
    by (simp add: defs eval_defs)
  have between: "run ps W1 = Some W2"
    by (simp add: ps_def defs eval_defs)
  have apart: "\<forall>p \<in> set ps. \<not> uses_handle 1 p \<and> p \<noteq> DestroyHub 0"
    by (simp add: ps_def)
  have drop: "step (Destroy 1) W2 = Some W3"
    by (simp add: defs eval_defs)
  have between': "run ([] :: (nat, int) stmt list) W1 = Some W1"
    by simp
  have apart': "\<forall>p \<in> set ([] :: (nat, int) stmt list). \<not> uses_handle 1 p \<and> p \<noteq> DestroyHub 0"
    by simp
  have drop': "step (Destroy 1) W1 = Some W3'"
    by (simp add: defs eval_defs)
  have hub3: "hubs W3 0 = Some H3" and hub3': "hubs W3' 0 = Some H3'"
    by (simp_all add: W3_def W3'_def)
  from dropped_handle_is_not_invoked [OF hub inv sub between apart drop, of "6 :: int"] hub3
  have "snd (CEventSafe_trigger (6 :: int) H3) =
      invoke_each (map callback (filter (\<lambda>e. id_entry e \<noteq> nextId H) (activeEntries H3))) 6"
    by auto
  then have r1: "snd (CEventSafe_trigger (6 :: int) H3) = ([(10, 6), (12, 6)], None)"
    by (simp add: H_def H3_def E0_def E1'_def E2_def activeEntries_def cleanup_def)
  from dropped_handle_is_not_invoked [OF hub inv sub between' apart' drop', of "6 :: int"] hub3'
  have "snd (CEventSafe_trigger (6 :: int) H3') = snd (CEventSafe_trigger 6 H)"
    by auto
  then have r2: "snd (CEventSafe_trigger (6 :: int) H3') = ([(10, 6)], None)"
    by (simp add: H_def E0_def CEventSafe_trigger_def activeEntries_def cleanup_def)
  have run1: "run [Subscribe 0 (Some 11) 1, Trigger 0 (5 :: int), Subscribe 0 (Some 12) 2, Destroy 1] W =
      Some W3"
    by (simp add: defs eval_defs)
  have run2: "run [Subscribe 0 (Some 11) 1, Destroy 1 :: (nat, int) stmt] W = Some W3'"
    by (simp add: defs eval_defs)
  from run1 r1 run2 r2 show ?thesis
    unfolding defs by (intro conjI)
qed

text \<open>
  Claim C9. In a world with distinct handle names, let the handle \<open>v\<close> be the one
  owner of an active entry \<open>e\<close> of a live hub that satisfies \<open>hub_inv\<close>, and let
  another handle \<open>u\<close> be move-assigned to \<open>v\<close>. The assignment changes no hub, so
  \<open>e\<close> is not unsubscribed, and no handle owns \<open>e\<close> after it. Whatever the program
  does next, as long as the hub is not destroyed, \<open>e\<close> stays in the snapshot of
  \<^verbatim>\<open>trigger\<close> and is called by it (no callback of the snapshot being empty), and no
  handle owns it.
\<close>

theorem move_assign_leaks_target_registration:
  assumes names: "distinct (map fst (handles w))"
    and hub: "hubs w a = Some h" "hub_inv h"
    and e: "e \<in> set (callbacks h)" "active e"
    and own: "set (owners a (id_entry e) w) = {v}"
    and src: "map_of (handles w) u = Some other" "u \<noteq> v"
    and run: "run (MoveAssign v u # ps) w = Some w'"
    and alive: "DestroyHub a \<notin> set ps"
  shows "(\<exists>w1. step (MoveAssign v u) w = Some w1 \<and> hubs w1 = hubs w \<and>
            map_of (handles w1) v = Some (moved_to other) \<and>
            owners a (id_entry e) w1 = []) \<and>
         (\<exists>h'. hubs w' a = Some h' \<and> e \<in> set (activeEntries h') \<and>
            owners a (id_entry e) w' = [] \<and>
            ((\<forall>e' \<in> set (activeEntries h'). callback e' \<noteq> None) \<longrightarrow>
               (the (callback e), x) \<in> set (fst (snd (CEventSafe_trigger x h')))))"
proof -
  define g where "g = (\<lambda>p :: var \<times> Subscription. if fst p = v then (v, moved_to other)
                   else if fst p = u then (u, moved_from) else p)"
  define w1 where "w1 = w\<lparr>handles := map g (handles w)\<rparr>"
  from own have "v \<in> set (owners a (id_entry e) w)" by simp
  then obtain s where s: "(v, s) \<in> set (handles w)" "event s = Some a" "id_sub s = id_entry e"
    by (auto simp: owners_set)
  from names s(1) have tgt: "map_of (handles w) v = Some s"
    by simp
  have st: "step (MoveAssign v u) w = Some w1"
    using tgt src by (simp add: w1_def g_def)
  have keys: "fst (g p) = fst p" for p
    by (simp add: g_def)
  have at_v: "map_of (handles w1) v = Some (moved_to other)"
    using tgt by (simp add: w1_def map_of_rewrite [of g, OF keys]) (simp add: g_def)
  from src(1) have "(u, other) \<in> set (handles w)" by (rule map_of_SomeD)
  moreover from own src(2) have "u \<notin> set (owners a (id_entry e) w)" by simp
  ultimately have other: "\<not> (event other = Some a \<and> id_sub other = id_entry e)"
    by (auto simp: owners_set)
  have rest: "\<not> (event (snd p) = Some a \<and> id_sub (snd p) = id_entry e)"
    if "p \<in> set (handles w)" "fst p \<noteq> v" for p
  proof
    assume ev: "event (snd p) = Some a \<and> id_sub (snd p) = id_entry e"
    from that(1) have "(fst p, snd p) \<in> set (handles w)" by simp
    with ev have "fst p \<in> set (owners a (id_entry e) w)"
      unfolding owners_set by blast
    with own that(2) show False by simp
  qed
  have own1: "owners a (id_entry e) w1 = []"
    unfolding owners_Nil
  proof
    fix q
    assume "q \<in> set (handles w1)"
    then obtain p where p: "p \<in> set (handles w)" "q = g p"
      by (auto simp: w1_def)
    show "\<not> (event (snd q) = Some a \<and> id_sub (snd q) = id_entry e)"
    proof (cases "fst p = v")
      case True
      with p other show ?thesis by (simp add: g_def moved_to_def)
    next
      case False
      with p rest [OF p(1)] show ?thesis by (simp add: g_def moved_from_def)
    qed
  qed
  have hubs1: "hubs w1 = hubs w"
    by (simp add: w1_def)
  have first: "\<exists>w1. step (MoveAssign v u) w = Some w1 \<and> hubs w1 = hubs w \<and>
            map_of (handles w1) v = Some (moved_to other) \<and>
            owners a (id_entry e) w1 = []"
    using st hubs1 at_v own1 by blast
  from run st have rest_run: "run ps w1 = Some w'"
    by simp
  from hub(2) e(1) have below: "id_entry e < nextId h"
    by (simp add: hub_inv_def)
  from hub(1) hubs1 have hub1: "hubs w1 a = Some h" by simp
  from orphan_run [OF rest_run hub1 e(1) e(2) below own1 alive]
  obtain h' where h': "hubs w' a = Some h'" "e \<in> set (callbacks h')"
    "owners a (id_entry e) w' = []"
    by blast
  from h'(2) e(2) have snap: "e \<in> set (activeEntries h')"
    by (simp add: activeEntries_eq)
  have "(\<forall>e' \<in> set (activeEntries h'). callback e' \<noteq> None) \<longrightarrow>
          (the (callback e), x) \<in> set (fst (snd (CEventSafe_trigger x h')))"
    by (intro impI) (rule trigger_calls_entry [OF snap])
  with h'(1) snap h'(3) have second: "\<exists>h'. hubs w' a = Some h' \<and> e \<in> set (activeEntries h') \<and>
            owners a (id_entry e) w' = [] \<and>
            ((\<forall>e' \<in> set (activeEntries h'). callback e' \<noteq> None) \<longrightarrow>
               (the (callback e), x) \<in> set (fst (snd (CEventSafe_trigger x h'))))"
    by blast
  from first second show ?thesis by (rule conjI)
qed

theorem move_assign_leak_witness:
  "run [MoveAssign 0 1, Trigger 0 (5 :: int), Destroy 0, Destroy 1, Trigger 0 6]
     \<lparr>hubs = [0 \<mapsto> \<lparr>needsCleanup = False, nextId = 2,
         callbacks = [\<lparr>id_entry = 0, callback = Some (10 :: nat), active = True\<rparr>,
                      \<lparr>id_entry = 1, callback = Some 11, active = True\<rparr>]\<rparr>],
      handles = [(0, \<lparr>event = Some 0, id_sub = 0\<rparr>), (1, \<lparr>event = Some 0, id_sub = 1\<rparr>)]\<rparr> =
   Some \<lparr>hubs = [0 \<mapsto> \<lparr>needsCleanup = False, nextId = 2,
         callbacks = [\<lparr>id_entry = 0, callback = Some 10, active = True\<rparr>]\<rparr>],
      handles = []\<rparr> \<and>
   \<lparr>id_entry = 0, callback = Some (10 :: nat), active = True\<rparr> \<in>
     set (activeEntries \<lparr>needsCleanup = False, nextId = 2,
         callbacks = [\<lparr>id_entry = 0, callback = Some 10, active = True\<rparr>]\<rparr>) \<and>
   (10, 7 :: int) \<in> set (fst (snd (CEventSafe_trigger 7 \<lparr>needsCleanup = False, nextId = 2,
         callbacks = [\<lparr>id_entry = 0, callback = Some (10 :: nat), active = True\<rparr>]\<rparr>)))"
proof -
  define E0 :: "nat CallbackEntry" where "E0 = \<lparr>id_entry = 0, callback = Some 10, active = True\<rparr>"
  define E1 :: "nat CallbackEntry" where "E1 = \<lparr>id_entry = 1, callback = Some 11, active = True\<rparr>"
  define H :: "nat CEvent" where "H = \<lparr>needsCleanup = False, nextId = 2, callbacks = [E0, E1]\<rparr>"
  define H' :: "nat CEvent" where "H' = \<lparr>needsCleanup = False, nextId = 2, callbacks = [E0]\<rparr>"
  define W :: "nat world" where "W = \<lparr>hubs = [0 \<mapsto> H],
      handles = [(0, \<lparr>event = Some 0, id_sub = 0\<rparr>), (1, \<lparr>event = Some 0, id_sub = 1\<rparr>)]\<rparr>"
  define W' :: "nat world" where "W' = \<lparr>hubs = [0 \<mapsto> H'], handles = []\<rparr>"
  define ps :: "(nat, int) stmt list" where "ps = [Trigger 0 5, Destroy 0, Destroy 1, Trigger 0 6]"
  have names: "distinct (map fst (handles W))"
    by (simp add: W_def)
  have hub: "hubs W 0 = Some H"
    by (simp add: W_def)
  have inv: "hub_inv H"
    by (simp add: hub_inv_def H_def E0_def E1_def)
  have e: "E0 \<in> set (callbacks H)" "active E0"
    by (simp_all add: H_def E0_def)
  have own: "set (owners 0 (id_entry E0) W) = {0}"
    by (simp add: owners_def W_def E0_def)
  have src: "map_of (handles W) 1 = Some \<lparr>event = Some 0, id_sub = 1\<rparr>" "(1 :: nat) \<noteq> 0"
    by (simp_all add: W_def)
  have run: "run (MoveAssign 0 1 # ps) W = Some W'"
    by (simp add: ps_def W_def W'_def H_def H'_def E0_def E1_def eval_defs)
  have alive: "DestroyHub 0 \<notin> set ps"
    by (simp add: ps_def)
  have ne: "\<forall>e' \<in> set (activeEntries H'). callback e' \<noteq> None"
    by (simp add: H'_def E0_def activeEntries_def cleanup_def)
  have hub': "hubs W' 0 = Some H'"
    by (simp add: W'_def)
  from move_assign_leaks_target_registration
    [OF names hub inv e own src run alive, of "7 :: int"] hub' ne
  have r: "E0 \<in> set (activeEntries H') \<and>
      (the (callback E0), 7 :: int) \<in> set (fst (snd (CEventSafe_trigger 7 H')))"
    by auto
  have c: "the (callback E0) = 10"
    by (simp add: E0_def)
  from run r show ?thesis
    unfolding c unfolding ps_def W_def W'_def H_def H'_def E0_def E1_def by (intro conjI) simp_all
qed

section \<open>The delayed dispatcher\<close>

lemma mod_shift: 
  fixes u :: int
  assumes "0 \<le> u" "u < 4294967296"
  shows "(u + 2147483648) mod 4294967296 =
      (if u \<le> 2147483647 then u + 2147483648 else u - 2147483648)"
proof (cases "u \<le> 2147483647")
  case True
  with assms show ?thesis by simp
next
  case False
  have "u + 2147483648 = u - 2147483648 + 4294967296"
    by arith
  then have "(u + 2147483648) mod 4294967296 = (u - 2147483648 + 4294967296) mod 4294967296"
    by (rule arg_cong)
  also have "\<dots> = (u - 2147483648) mod 4294967296"
    by (simp only: mod_add_self2)
  also have "\<dots> = u - 2147483648"
    using False assms by simp
  finally show ?thesis using False by simp
qed

lemma sint_32: "sint (d :: 32 word) = (if uint d \<le> INT_MAX then uint d else uint d - 4294967296)"
proof -
  have b: "0 \<le> uint d" "uint d < 4294967296"
    using uint_bounded [of d] by simp_all
  have "sint d = (uint d + 2147483648) mod 4294967296 - 2147483648"
    by (simp add: sint_uint signed_take_bit_eq_take_bit_shift take_bit_eq_mod)
  then show ?thesis
    using mod_shift [OF b] by (simp add: INT_MAX_def)
qed

lemma launch_all_append:
  "launch_all (xs @ ys) a = launch_all xs a @ launch_all ys a"
  by (induction xs) auto

lemma trigger_after_subscribe_with_delay:
  "CTimedEvent_trigger a (subscribe_with_delay (Some c) d D) =
     (invoke_nonempty (immediate_callbacks D) a,
      launch_all (delayed_callbacks D) a @ [launch_delayed (Some c) d a])"
  by (simp add: CTimedEvent_trigger_def subscribe_with_delay_def launch_all_append)

text \<open>
  Claim C10. \<^verbatim>\<open>subscribe_with_delay\<close> takes the delay as an unsigned integer, so what
  it stores is never negative. For every stored \<^verbatim>\<open>delay_ms\<close> above \<^verbatim>\<open>INT_MAX\<close>,
  the conversion at the call \<^verbatim>\<open>delay(delay_ms)\<close> gives a negative argument,
  \<^verbatim>\<open>delay\<close> returns \<open>-1\<close> without sleeping, and the thread that \<^verbatim>\<open>trigger\<close>
  starts for the registration calls the callback with no wait before it.
\<close>

theorem delay_ms_above_INT_MAX_fires_without_wait:
  fixes d :: "32 word"
  assumes "INT_MAX < uint d"
  shows "delayed_callbacks (subscribe_with_delay (Some c) d D) =
           delayed_callbacks D @ [\<lparr>func = Some c, delay_ms = d\<rparr>] \<and>
         0 \<le> uint d \<and>
         sint d < 0 \<and>
         delay (sint d) = (- 1, None) \<and>
         CTimedEvent_trigger a (subscribe_with_delay (Some c) d D) =
           (invoke_nonempty (immediate_callbacks D) a,
            launch_all (delayed_callbacks D) a @
              [\<lparr>slept = None, then_called = ([(c, a)], None)\<rparr>])"
proof -
  have neg: "sint d < 0"
    using assms uint_bounded [of d] by (simp add: sint_32)
  then have d: "delay (sint d) = (- 1, None)"
    by (simp add: delay_def)
  then have "launch_delayed (Some c) d a = \<lparr>slept = None, then_called = ([(c, a)], None)\<rparr>"
    by (simp add: launch_delayed_def)
  then show ?thesis
    using neg d by (simp add: trigger_after_subscribe_with_delay) (simp add: subscribe_with_delay_def)
qed

theorem delay_ms_above_INT_MAX_witness:
  "INT_MAX < uint (2147483648 :: 32 word) \<and>
   sint (2147483648 :: 32 word) < 0 \<and>
   delay (sint (2147483648 :: 32 word)) = (- 1, None) \<and>
   CTimedEvent_trigger (5 :: int)
       (subscribe_with_delay (Some (1 :: nat)) 2147483648
          \<lparr>immediate_callbacks = [], delayed_callbacks = []\<rparr>) =
     ([], [\<lparr>slept = None, then_called = ([(1, 5)], None)\<rparr>])"
proof -
  have h: "INT_MAX < uint (2147483648 :: 32 word)"
    by (simp add: INT_MAX_def)
  show ?thesis
    using h delay_ms_above_INT_MAX_fires_without_wait
      [OF h, of "1 :: nat" "\<lparr>immediate_callbacks = [], delayed_callbacks = []\<rparr>" "5 :: int"]
    by simp
qed

text \<open>
  Claim C1. A negative requested delay should give an explicit failure and no
  immediate, unflagged call. The code at \<^verbatim>\<open>subscribe_with_delay(cb, -1)\<close> followed
  by \<^verbatim>\<open>trigger(5)\<close>: the registration is stored with \<^verbatim>\<open>delay_ms = 4294967295\<close>,
  \<^verbatim>\<open>delay\<close> returns \<open>-1\<close> without sleeping, the thread drops that value and calls
  the callback at once, and nothing \<^verbatim>\<open>trigger\<close> returns tells the caller.
\<close>

theorem negative_delay_fires_unflagged:
  "subscribe_with_delay (Some (1 :: nat)) (- 1) \<lparr>immediate_callbacks = [], delayed_callbacks = []\<rparr> =
     \<lparr>immediate_callbacks = [], delayed_callbacks = [\<lparr>func = Some 1, delay_ms = 4294967295\<rparr>]\<rparr> \<and>
   delay (sint (4294967295 :: 32 word)) = (- 1, None) \<and>
   CTimedEvent_trigger (5 :: int)
       \<lparr>immediate_callbacks = [], delayed_callbacks = [\<lparr>func = Some (1 :: nat), delay_ms = 4294967295\<rparr>]\<rparr> =
     ([], [\<lparr>slept = None, then_called = ([(1, 5)], None)\<rparr>])"
  by (simp add: subscribe_with_delay_def CTimedEvent_trigger_def launch_delayed_def delay_def)

text \<open>
  Claim C8. After \<^verbatim>\<open>subscribe_with_delay(cb, d)\<close> with \<open>d\<close> up to \<^verbatim>\<open>INT_MAX\<close>,
  \<^verbatim>\<open>trigger\<close> makes the same calls on its own thread as it would without the
  registration, so it does not call \<^verbatim>\<open>cb\<close> there; it starts one more thread than
  before, and that thread sleeps for \<open>d\<close> milliseconds and then calls \<^verbatim>\<open>cb\<close>
  once with the arguments of \<^verbatim>\<open>trigger\<close>. For \<open>d = 100\<close> the sleep is 0 s and
  100000000 ns.
\<close>

theorem delayed_callback_fires_once_after_its_delay:
  fixes d :: "32 word"
  assumes "uint d \<le> INT_MAX"
  shows "CTimedEvent_trigger a (subscribe_with_delay (Some c) d D) =
           (fst (CTimedEvent_trigger a D),
            snd (CTimedEvent_trigger a D) @
              [\<lparr>slept = Some \<lparr>tv_sec = uint d div 1000, tv_nsec = (uint d mod 1000) * 1000000\<rparr>,
                then_called = ([(c, a)], None)\<rparr>]) \<and>
         millis \<lparr>tv_sec = uint d div 1000, tv_nsec = (uint d mod 1000) * 1000000\<rparr> = uint d"
proof -
  from assms have s: "sint d = uint d"
    by (simp add: sint_32)
  have "delay (sint d) =
      (0, Some \<lparr>tv_sec = uint d div 1000, tv_nsec = (uint d mod 1000) * 1000000\<rparr>)"
    by (simp add: delay_def s)
  then have "launch_delayed (Some c) d a =
      \<lparr>slept = Some \<lparr>tv_sec = uint d div 1000, tv_nsec = (uint d mod 1000) * 1000000\<rparr>,
       then_called = ([(c, a)], None)\<rparr>"
    by (simp add: launch_delayed_def)
  then have first: "CTimedEvent_trigger a (subscribe_with_delay (Some c) d D) =
           (fst (CTimedEvent_trigger a D),
            snd (CTimedEvent_trigger a D) @
              [\<lparr>slept = Some \<lparr>tv_sec = uint d div 1000, tv_nsec = (uint d mod 1000) * 1000000\<rparr>,
                then_called = ([(c, a)], None)\<rparr>])"
    by (simp add: trigger_after_subscribe_with_delay) (simp add: CTimedEvent_trigger_def)
  have second: "millis \<lparr>tv_sec = uint d div 1000, tv_nsec = (uint d mod 1000) * 1000000\<rparr> = uint d"
    by (simp add: millis_def)
  from first second show ?thesis by (rule conjI)
qed

theorem delayed_callback_after_100_witness:
  "uint (100 :: 32 word) \<le> INT_MAX \<and>
   CTimedEvent_trigger (5 :: int)
       (subscribe_with_delay (Some (1 :: nat)) 100
          \<lparr>immediate_callbacks = [], delayed_callbacks = []\<rparr>) =
     ([], [\<lparr>slept = Some \<lparr>tv_sec = 0, tv_nsec = 100000000\<rparr>, then_called = ([(1, 5)], None)\<rparr>]) \<and>
   millis \<lparr>tv_sec = 0, tv_nsec = 100000000\<rparr> = 100"
proof -
  have h: "uint (100 :: 32 word) \<le> INT_MAX"
    by (simp add: INT_MAX_def)
  show ?thesis
    using h delayed_callback_fires_once_after_its_delay
      [OF h, of "5 :: int" "1 :: nat" "\<lparr>immediate_callbacks = [], delayed_callbacks = []\<rparr>"]
    by (simp add: CTimedEvent_trigger_def)
qed

end
